theory Spec2Isabelle
  imports Main "HOL-Library.Word"
begin

section \<open>The ZooKeeper backend of goffkv (zk.go)\<close>

text \<open>
  A shallow embedding of \<^verbatim>\<open>zk.go\<close>: the client that adapts the tree-structured
  coordination service to the flat, versioned key-value interface of goffkv.
  The coordination service is an external collaborator. It is modelled as a record of
  state transformers over an arbitrary service state \<open>'s\<close>: every call takes the
  service state and returns its answer together with the next state. Nothing is assumed
  about the answers, so a run of a client function covers every behaviour of the service,
  including answers that reflect the work of concurrent actors.
\<close>

subsection \<open>Data\<close>

type_synonym int32 = "32 word"
type_synonym Version = "64 word"
type_synonym bytes = "8 word list"

text \<open>
  Go's \<^verbatim>\<open>error\<close> values that the file names or can receive: the sentinel errors
  of the ZooKeeper library, any other library or transport error (\<open>ErrOther\<close>), the
  operation errors of goffkv, the structured transaction error, and the error that
  \<^verbatim>\<open>goffkv.DisassembleKey\<close> returns for a key it rejects.
\<close>

datatype error =
    ErrNodeExists
  | ErrNoNode
  | ErrNoChildrenForEphemerals
  | ErrBadVersion
  | ErrNotEmpty
  | ErrUnknown
  | ErrOther string
  | OpErrEntryExists
  | OpErrNoEntry
  | OpErrEphem
  | TxnError int
  | KeyError string

record ACL =
  Perms :: int32
  Scheme :: string
  ID :: string

record Stat =
  Version :: int32

datatype request =
    CheckVersionRequest string int32
  | CreateRequest string bytes "ACL list" int32
  | SetDataRequest string bytes int32
  | DeleteRequest string int32

text \<open>
  One entry of the answer to a batch. \<open>Stat\<close> is a pointer in the library's
  \<^verbatim>\<open>MultiResponse\<close>; the library fills it only for an entry answered with a
  set-data result, so it is optional here and reading through it when it is nil is a
  panic of the client.
\<close>

record MultiResponse =
  mr_Stat :: "Stat option"
  mr_String :: string
  mr_Error :: "error option"

text \<open>
  The connection: the calls of \<^verbatim>\<open>zkapi.Conn\<close> that the client makes. The single
  calls return the address of the \<^verbatim>\<open>Stat\<close> inside their response record, which is
  never nil. A watch channel is represented by an identifier.
\<close>

record 's Conn =
  conn_Create :: "string \<Rightarrow> bytes \<Rightarrow> int32 \<Rightarrow> ACL list \<Rightarrow> 's \<Rightarrow> (string \<times> error option) \<times> 's"
  conn_Set :: "string \<Rightarrow> bytes \<Rightarrow> int32 \<Rightarrow> 's \<Rightarrow> (Stat \<times> error option) \<times> 's"
  conn_Children :: "string \<Rightarrow> 's \<Rightarrow> (string list \<times> Stat \<times> error option) \<times> 's"
  conn_ChildrenW :: "string \<Rightarrow> 's \<Rightarrow> (string list \<times> Stat \<times> nat \<times> error option) \<times> 's"
  conn_Exists :: "string \<Rightarrow> 's \<Rightarrow> (bool \<times> Stat \<times> error option) \<times> 's"
  conn_ExistsW :: "string \<Rightarrow> 's \<Rightarrow> (bool \<times> Stat \<times> nat \<times> error option) \<times> 's"
  conn_Get :: "string \<Rightarrow> 's \<Rightarrow> (bytes \<times> Stat \<times> error option) \<times> 's"
  conn_GetW :: "string \<Rightarrow> 's \<Rightarrow> (bytes \<times> Stat \<times> nat \<times> error option) \<times> 's"
  conn_Multi :: "request list \<Rightarrow> 's \<Rightarrow> (MultiResponse list \<times> error option) \<times> 's"

record 's zkClient =
  conn :: "'s Conn"
  prefixSegments :: "string list"

definition PermAll :: int32 where
  "PermAll = 31"

definition FlagEphemeral :: int32 where
  "FlagEphemeral = 1"

definition defaultAcl :: "ACL list" where
  "defaultAcl = [\<lparr>Perms = PermAll, Scheme = ''world'', ID = ''anyone''\<rparr>]"

text \<open>
  \<^verbatim>\<open>goffkv.DisassembleKey\<close> is a function of the goffkv package. Its syntax rules
  are a parameter of the model: a key parser answers with a message for a key it rejects
  and with the segments otherwise. The error value it returns is \<open>KeyError\<close>, distinct
  from every other error.
\<close>

type_synonym keyparser = "string \<Rightarrow> string + string list"

definition DisassembleKey :: "keyparser \<Rightarrow> string \<Rightarrow> string list \<times> error option" where
  "DisassembleKey kp key =
     (case kp key of
        Inl msg \<Rightarrow> ([], Some (KeyError msg))
      | Inr segments \<Rightarrow> (segments, None))"

subsection \<open>Paths and errors\<close>

fun writeSegments :: "string \<Rightarrow> string list \<Rightarrow> string" where
  "writeSegments result [] = result"
| "writeSegments result (segment # segments) =
     writeSegments (result @ CHR ''/'' # segment) segments"

definition assemblePath :: "'s zkClient \<Rightarrow> string list \<Rightarrow> string" where
  "assemblePath c segments =
     writeSegments (writeSegments [] (prefixSegments c)) segments"

fun convertError :: "error \<Rightarrow> error" where
  "convertError ErrNodeExists = OpErrEntryExists"
| "convertError ErrNoNode = OpErrNoEntry"
| "convertError ErrNoChildrenForEphemerals = OpErrEphem"
| "convertError err = err"

subsection \<open>Single-key operations\<close>

definition Create ::
  "keyparser \<Rightarrow> 's zkClient \<Rightarrow> string \<Rightarrow> bytes \<Rightarrow> bool \<Rightarrow> 's \<Rightarrow> (Version \<times> error option) \<times> 's" where
  "Create kp c key val lease s =
     (case DisassembleKey kp key of
        (segments, Some err) \<Rightarrow> ((0, Some err), s)
      | (segments, None) \<Rightarrow>
          (let flags = (if lease then FlagEphemeral else 0) in
           case conn_Create (conn c) (assemblePath c segments) val flags defaultAcl s of
             ((_, Some err), s1) \<Rightarrow> ((0, Some (convertError err)), s1)
           | ((_, None), s1) \<Rightarrow> ((1, None), s1)))"

definition Set ::
  "keyparser \<Rightarrow> 's zkClient \<Rightarrow> string \<Rightarrow> bytes \<Rightarrow> 's \<Rightarrow> (Version \<times> error option) \<times> 's" where
  "Set kp c key val s =
     (case DisassembleKey kp key of
        (segments, Some err) \<Rightarrow> ((0, Some err), s)
      | (segments, None) \<Rightarrow>
          (case conn_Create (conn c) (assemblePath c segments) val 0 defaultAcl s of
             ((_, None), s1) \<Rightarrow> ((1, None), s1)
           | ((_, Some err), s1) \<Rightarrow>
               if err \<noteq> ErrNodeExists then ((0, Some (convertError err)), s1)
               else
                 (case conn_Set (conn c) (assemblePath c segments) val (- 1) s1 of
                    ((stat, None), s2) \<Rightarrow> ((scast (Version stat) + 1, None), s2)
                  | ((stat, Some err2), s2) \<Rightarrow>
                      if err2 = ErrNoNode then ((push_bit 62 1, None), s2)
                      else ((0, Some (convertError err2)), s2))))"

definition Cas ::
  "keyparser \<Rightarrow> 's zkClient \<Rightarrow> string \<Rightarrow> bytes \<Rightarrow> Version \<Rightarrow> 's \<Rightarrow> (Version \<times> error option) \<times> 's" where
  "Cas kp c key val ver s =
     (if ver = 0 then
        (case Create kp c key val False s of
           ((resultVer, None), s1) \<Rightarrow> ((resultVer, None), s1)
         | ((resultVer, Some err), s1) \<Rightarrow>
             if err = OpErrEntryExists then ((0, None), s1)
             else ((0, Some err), s1))
      else
        (case DisassembleKey kp key of
           (segments, Some err) \<Rightarrow> ((0, Some err), s)
         | (segments, None) \<Rightarrow>
             (case conn_Set (conn c) (assemblePath c segments) val (ucast (ver - 1)) s of
                ((stat, None), s1) \<Rightarrow> ((scast (Version stat) + 1, None), s1)
              | ((stat, Some err), s1) \<Rightarrow>
                  if err = ErrBadVersion then ((0, None), s1)
                  else ((0, Some (convertError err)), s1))))"

subsection \<open>Recursive erase\<close>

text \<open>
  A client function that panics (an index out of range, a nil pointer, an explicit
  \<^verbatim>\<open>panic\<close>) ends in \<open>Panic\<close>; otherwise it returns.
\<close>

datatype 'a outcome = Panic string | Return 'a

text \<open>
  \<^verbatim>\<open>makeEraseQuery\<close> recurses through listings that the service supplies, so the
  depth of the recursion is bounded by fuel: \<open>None\<close> means the fuel \<open>d\<close> was
  used up before the walk ended. \<open>eraseChildren\<close> is the \<^verbatim>\<open>for\<close> loop over the
  listed children.
\<close>

fun makeEraseQuery ::
    "nat \<Rightarrow> 's zkClient \<Rightarrow> request list \<Rightarrow> string list \<Rightarrow> 's \<Rightarrow>
       ((request list \<times> error option) \<times> 's) option"
  and eraseChildren ::
    "nat \<Rightarrow> 's zkClient \<Rightarrow> request list \<Rightarrow> string list \<Rightarrow> string list \<Rightarrow> 's \<Rightarrow>
       ((request list \<times> error option) \<times> 's) option"
where
  "makeEraseQuery 0 c ops segments s = None"
| "makeEraseQuery (Suc d) c ops segments s =
     (case conn_Children (conn c) (assemblePath c segments) s of
        ((children, stat, Some err), s1) \<Rightarrow> Some ((ops, Some err), s1)
      | ((children, stat, None), s1) \<Rightarrow>
          (case eraseChildren d c ops segments children s1 of
             None \<Rightarrow> None
           | Some ((ops1, Some err), s2) \<Rightarrow> Some ((ops1, Some err), s2)
           | Some ((ops1, None), s2) \<Rightarrow>
               Some ((ops1 @ [DeleteRequest (assemblePath c segments) (- 1)], None), s2)))"
| "eraseChildren d c ops segments [] s = Some ((ops, None), s)"
| "eraseChildren d c ops segments (child # children) s =
     (case makeEraseQuery d c ops (segments @ [child]) s of
        None \<Rightarrow> None
      | Some ((ops1, err), s1) \<Rightarrow>
          if err \<noteq> None \<and> err \<noteq> Some ErrNoNode then Some ((ops1, err), s1)
          else eraseChildren d c ops1 segments children s1)"

text \<open>
  The retry loop of \<^verbatim>\<open>Erase\<close>, with fuel \<open>n\<close> for the number of attempts.
\<close>

fun Erase_loop ::
  "nat \<Rightarrow> nat \<Rightarrow> 's zkClient \<Rightarrow> string list \<Rightarrow> Version \<Rightarrow> 's \<Rightarrow>
     (error option outcome \<times> 's) option" where
  "Erase_loop 0 d c segments ver s = None"
| "Erase_loop (Suc n) d c segments ver s =
     (case makeEraseQuery d c
             [CheckVersionRequest (assemblePath c segments) (ucast ver - 1)] segments s of
        None \<Rightarrow> None
      | Some ((ops, Some err), s1) \<Rightarrow> Some (Return (Some (convertError err)), s1)
      | Some ((ops, None), s1) \<Rightarrow>
          (case conn_Multi (conn c) ops s1 of
             ((data, None), s2) \<Rightarrow> Some (Return None, s2)
           | ((data, Some err), s2) \<Rightarrow>
               if err = ErrBadVersion then Some (Return None, s2)
               else if err = ErrNotEmpty then Erase_loop n d c segments ver s2
               else if err = ErrNoNode then
                 (case data of
                    [] \<Rightarrow> Some (Panic ''index out of range'', s2)
                  | datum # _ \<Rightarrow>
                      if mr_Error datum \<noteq> None then Some (Return (Some OpErrNoEntry), s2)
                      else Erase_loop n d c segments ver s2)
               else Some (Return (Some (convertError err)), s2)))"

definition Erase ::
  "nat \<Rightarrow> nat \<Rightarrow> keyparser \<Rightarrow> 's zkClient \<Rightarrow> string \<Rightarrow> Version \<Rightarrow> 's \<Rightarrow>
     (error option outcome \<times> 's) option" where
  "Erase n d kp c key ver s =
     (case DisassembleKey kp key of
        (segments, Some err) \<Rightarrow> Some (Return (Some err), s)
      | (segments, None) \<Rightarrow> Erase_loop n d c segments ver s)"

subsection \<open>Reads\<close>




subsection \<open>Transactions\<close>

text \<open>
  The transaction types of goffkv. The kind of an operation is a value of an integer type
  with the three constants \<^verbatim>\<open>goffkv.Create\<close>, \<^verbatim>\<open>goffkv.Set\<close> and
  \<^verbatim>\<open>goffkv.Erase\<close>; the type is not closed, so a transaction can carry any other
  value (\<open>otherKind\<close>), which \<^verbatim>\<open>Commit\<close> receives unvalidated.
\<close>

datatype opKind = goffkv_Create | goffkv_Set | goffkv_Erase | otherKind int

record TxnCheck =
  check_Key :: string
  check_Ver :: Version

record TxnOp =
  op_What :: opKind
  op_Key :: string
  op_Value :: bytes
  op_Lease :: bool

record Txn =
  Checks :: "TxnCheck list"
  Ops :: "TxnOp list"

record TxnOpResult =
  res_What :: opKind
  res_Ver :: Version

datatype resultKind = rkCreate | rkSet | rkAux

fun toUserOpIndex_from :: "int \<Rightarrow> int list \<Rightarrow> int \<Rightarrow> int" where
  "toUserOpIndex_from i [] op = - 1"
| "toUserOpIndex_from i (x # boundaries) op =
     (if x \<ge> op then i else toUserOpIndex_from (i + 1) boundaries op)"

definition toUserOpIndex :: "int list \<Rightarrow> int \<Rightarrow> int" where
  "toUserOpIndex boundaries op = toUserOpIndex_from 0 boundaries op"

text \<open>
  The build phase of one attempt of \<^verbatim>\<open>Commit\<close>: the three slices
  \<^verbatim>\<open>boundaries\<close>, \<^verbatim>\<open>ops\<close> and \<^verbatim>\<open>rks\<close>, first extended by the loop over the
  checks, then by the loop over the operations. \<open>Inl\<close> is the error of an early return.
  The \<^verbatim>\<open>switch\<close> on the kind of an operation has no default case: for a kind
  other than the three constants no item and no result kind is appended, and the boundary
  \<^verbatim>\<open>len(ops) - 1\<close> is appended all the same.
\<close>

type_synonym build = "int list \<times> request list \<times> resultKind list"

fun commitChecks ::
  "keyparser \<Rightarrow> 's zkClient \<Rightarrow> TxnCheck list \<Rightarrow> build \<Rightarrow> error + build" where
  "commitChecks kp c [] b = Inr b"
| "commitChecks kp c (check # checks) (boundaries, ops, rks) =
     (case DisassembleKey kp (check_Key check) of
        (segments, Some err) \<Rightarrow> Inl err
      | (segments, None) \<Rightarrow>
          (let ops1 = ops @ [CheckVersionRequest (assemblePath c segments)
                               (ucast (check_Ver check) - 1)]
           in commitChecks kp c checks
                (boundaries @ [int (length ops1) - 1], ops1, rks @ [rkAux])))"

fun commitOps ::
  "nat \<Rightarrow> keyparser \<Rightarrow> 's zkClient \<Rightarrow> TxnOp list \<Rightarrow> build \<Rightarrow> 's \<Rightarrow>
     ((error + build) \<times> 's) option" where
  "commitOps d kp c [] b s = Some (Inr b, s)"
| "commitOps d kp c (op # rest) (boundaries, ops, rks) s =
     (case DisassembleKey kp (op_Key op) of
        (segments, Some err) \<Rightarrow> Some (Inl err, s)
      | (segments, None) \<Rightarrow>
          (case op_What op of
             goffkv_Create \<Rightarrow>
               (let flags = (if op_Lease op then FlagEphemeral else 0);
                    ops1 = ops @ [CreateRequest (assemblePath c segments) (op_Value op)
                                    defaultAcl flags]
                in commitOps d kp c rest
                     (boundaries @ [int (length ops1) - 1], ops1, rks @ [rkCreate]) s)
           | goffkv_Set \<Rightarrow>
               (let ops1 = ops @ [SetDataRequest (assemblePath c segments) (op_Value op) (- 1)]
                in commitOps d kp c rest
                     (boundaries @ [int (length ops1) - 1], ops1, rks @ [rkSet]) s)
           | goffkv_Erase \<Rightarrow>
               (case makeEraseQuery d c ops segments s of
                  None \<Rightarrow> None
                | Some ((ops1, Some err), s1) \<Rightarrow>
                    if err \<noteq> ErrNoNode then Some (Inl (convertError err), s1)
                    else
                      (let ops2 = ops1 @ [DeleteRequest (assemblePath c segments) (- 1)]
                       in commitOps d kp c rest
                            (boundaries @ [int (length ops2) - 1], ops2,
                             rks @ replicate (length ops2 - length ops) rkAux) s1)
                | Some ((ops1, None), s1) \<Rightarrow>
                    commitOps d kp c rest
                      (boundaries @ [int (length ops1) - 1], ops1,
                       rks @ replicate (length ops1 - length ops) rkAux) s1)
           | otherKind k \<Rightarrow>
               commitOps d kp c rest (boundaries @ [int (length ops) - 1], ops, rks) s))"

text \<open>
  The reconciliation loop over the answer \<^verbatim>\<open>data\<close>, from index \<open>i\<close> on, with
  the results collected so far.
\<close>

datatype scan =
    Retry
  | Failed int
  | Panicked string
  | Finished "TxnOpResult list"

fun reconcile ::
  "int list \<Rightarrow> resultKind list \<Rightarrow> nat \<Rightarrow> MultiResponse list \<Rightarrow> TxnOpResult list \<Rightarrow> scan" where
  "reconcile boundaries rks i [] result = Finished result"
| "reconcile boundaries rks i (datum # data) result =
     (if mr_Error datum \<noteq> None then
        (let userIndex = toUserOpIndex boundaries (int i) in
         if userIndex < 0 then Panicked ''txn failed on non-existing op''
         else if boundaries ! nat userIndex \<noteq> int i then Retry
         else Failed userIndex)
      else if length rks \<le> i then Panicked ''index out of range''
      else
        (case rks ! i of
           rkCreate \<Rightarrow>
             reconcile boundaries rks (Suc i) data
               (result @ [\<lparr>res_What = goffkv_Create, res_Ver = 1\<rparr>])
         | rkSet \<Rightarrow>
             (case mr_Stat datum of
                None \<Rightarrow> Panicked ''nil pointer dereference''
              | Some stat \<Rightarrow>
                  reconcile boundaries rks (Suc i) data
                    (result @ [\<lparr>res_What = goffkv_Set, res_Ver = scast (Version stat) + 1\<rparr>]))
         | rkAux \<Rightarrow> reconcile boundaries rks (Suc i) data result))"

text \<open>
  \<^verbatim>\<open>Commit\<close>, with fuel \<open>n\<close> for the number of attempts and \<open>d\<close> for the
  depth of each erase expansion. A returned pair is the result slice (\<open>None\<close> for
  \<^verbatim>\<open>nil\<close>) and the error.
\<close>

fun Commit ::
  "nat \<Rightarrow> nat \<Rightarrow> keyparser \<Rightarrow> 's zkClient \<Rightarrow> Txn \<Rightarrow> 's \<Rightarrow>
     ((TxnOpResult list option \<times> error option) outcome \<times> 's) option" where
  "Commit 0 d kp c txn s = None"
| "Commit (Suc n) d kp c txn s =
     (case commitChecks kp c (Checks txn) ([], [], []) of
        Inl err \<Rightarrow> Some (Return (None, Some err), s)
      | Inr b \<Rightarrow>
          (case commitOps d kp c (Ops txn) b s of
             None \<Rightarrow> None
           | Some (Inl err, s1) \<Rightarrow> Some (Return (None, Some err), s1)
           | Some (Inr (boundaries, ops, rks), s1) \<Rightarrow>
               (case conn_Multi (conn c) ops s1 of
                  ((data, err), s2) \<Rightarrow>
                    (case reconcile boundaries rks 0 data [] of
                       Retry \<Rightarrow> Commit n d kp c txn s2
                     | Failed userIndex \<Rightarrow> Some (Return (None, Some (TxnError userIndex)), s2)
                     | Panicked msg \<Rightarrow> Some (Panic msg, s2)
                     | Finished result \<Rightarrow>
                         (case err of
                            Some e \<Rightarrow> Some (Return (None, Some (convertError e)), s2)
                          | None \<Rightarrow> Some (Return (Some result, None), s2))))))"

subsection \<open>A reference model of the coordination service\<close>

text \<open>
  The service itself is not part of the program. For statements about what an operation
  leaves in the tree, the contract of the service is made concrete: a finite table from
  node paths to nodes, with the root (the empty path) always present. An expected
  version of \<open>-1\<close> stands for "any version"; a batch is applied in full or not at all.
  When a batch fails, the entries before the failing one are answered without error and
  without result, the failing one with its error, and the later ones with
  \<open>ErrUnknown\<close>; the error of the batch is the error of the failing entry.
\<close>

record znode =
  zdata :: bytes
  zversion :: int32
  zephemeral :: bool

type_synonym zkstate = "(string \<times> znode) list"

definition parentPath :: "string \<Rightarrow> string" where
  "parentPath p = rev (drop 1 (dropWhile (\<lambda>ch. ch \<noteq> CHR ''/'') (rev p)))"

definition zk_exists :: "zkstate \<Rightarrow> string \<Rightarrow> bool" where
  "zk_exists st p = (p = [] \<or> map_of st p \<noteq> None)"

definition childName :: "string \<Rightarrow> string \<Rightarrow> string option" where
  "childName p q =
     (if take (Suc (length p)) q = p @ ''/'' \<and> drop (Suc (length p)) q \<noteq> []
         \<and> CHR ''/'' \<notin> set (drop (Suc (length p)) q)
      then Some (drop (Suc (length p)) q) else None)"

definition zk_childrenOf :: "zkstate \<Rightarrow> string \<Rightarrow> string list" where
  "zk_childrenOf st p = List.map_filter (\<lambda>(q, n). childName p q) st"

definition versionOk :: "int32 \<Rightarrow> int32 \<Rightarrow> bool" where
  "versionOk expected current = (expected = - 1 \<or> expected = current)"

definition zk_create :: "string \<Rightarrow> bytes \<Rightarrow> int32 \<Rightarrow> zkstate \<Rightarrow> error + zkstate" where
  "zk_create p val flags st =
     (if \<not> zk_exists st (parentPath p) then Inl ErrNoNode
      else if zk_exists st p then Inl ErrNodeExists
      else if (case map_of st (parentPath p) of Some n \<Rightarrow> zephemeral n | None \<Rightarrow> False)
        then Inl ErrNoChildrenForEphemerals
      else Inr (st @ [(p, \<lparr>zdata = val, zversion = 0, zephemeral = bit flags 0\<rparr>)]))"

definition zk_set :: "string \<Rightarrow> bytes \<Rightarrow> int32 \<Rightarrow> zkstate \<Rightarrow> error + (Stat \<times> zkstate)" where
  "zk_set p val expected st =
     (case map_of st p of
        None \<Rightarrow> Inl ErrNoNode
      | Some n \<Rightarrow>
          if \<not> versionOk expected (zversion n) then Inl ErrBadVersion
          else Inr (\<lparr>Version = zversion n + 1\<rparr>,
                    map (\<lambda>(q, m). if q = p then (q, m\<lparr>zdata := val, zversion := zversion n + 1\<rparr>)
                                   else (q, m)) st))"

definition zk_check :: "string \<Rightarrow> int32 \<Rightarrow> zkstate \<Rightarrow> error option" where
  "zk_check p expected st =
     (case map_of st p of
        None \<Rightarrow> Some ErrNoNode
      | Some n \<Rightarrow> if versionOk expected (zversion n) then None else Some ErrBadVersion)"

definition zk_delete :: "string \<Rightarrow> int32 \<Rightarrow> zkstate \<Rightarrow> error + zkstate" where
  "zk_delete p expected st =
     (case map_of st p of
        None \<Rightarrow> Inl ErrNoNode
      | Some n \<Rightarrow>
          if \<not> versionOk expected (zversion n) then Inl ErrBadVersion
          else if zk_childrenOf st p \<noteq> [] then Inl ErrNotEmpty
          else Inr (filter (\<lambda>(q, m). q \<noteq> p) st))"

definition okResponse :: MultiResponse where
  "okResponse = \<lparr>mr_Stat = None, mr_String = [], mr_Error = None\<rparr>"

definition errResponse :: "error \<Rightarrow> MultiResponse" where
  "errResponse e = \<lparr>mr_Stat = None, mr_String = [], mr_Error = Some e\<rparr>"

text \<open>One entry of a batch: its error, or its answer and the next tree.\<close>

fun zk_apply :: "request \<Rightarrow> zkstate \<Rightarrow> error + (MultiResponse \<times> zkstate)" where
  "zk_apply (CheckVersionRequest p v) st =
     (case zk_check p v st of Some e \<Rightarrow> Inl e | None \<Rightarrow> Inr (okResponse, st))"
| "zk_apply (CreateRequest p val acl flags) st =
     (case zk_create p val flags st of
        Inl e \<Rightarrow> Inl e
      | Inr st1 \<Rightarrow> Inr (okResponse\<lparr>mr_String := p\<rparr>, st1))"
| "zk_apply (SetDataRequest p val v) st =
     (case zk_set p val v st of
        Inl e \<Rightarrow> Inl e
      | Inr (stat, st1) \<Rightarrow> Inr (okResponse\<lparr>mr_Stat := Some stat\<rparr>, st1))"
| "zk_apply (DeleteRequest p v) st =
     (case zk_delete p v st of Inl e \<Rightarrow> Inl e | Inr st1 \<Rightarrow> Inr (okResponse, st1))"

text \<open>
  A batch from its first entry on: \<open>Inl (k, e)\<close> when entry \<open>k\<close> of the remaining
  ones fails with \<open>e\<close>, the answers and the final tree otherwise.
\<close>

fun zk_batch :: "request list \<Rightarrow> zkstate \<Rightarrow> (nat \<times> error) + (MultiResponse list \<times> zkstate)" where
  "zk_batch [] st = Inr ([], st)"
| "zk_batch (r # rs) st =
     (case zk_apply r st of
        Inl e \<Rightarrow> Inl (0, e)
      | Inr (resp, st1) \<Rightarrow>
          (case zk_batch rs st1 of
             Inl (k, e) \<Rightarrow> Inl (Suc k, e)
           | Inr (resps, st2) \<Rightarrow> Inr (resp # resps, st2)))"

definition zk_multi :: "request list \<Rightarrow> zkstate \<Rightarrow> (MultiResponse list \<times> error option) \<times> zkstate" where
  "zk_multi ops st =
     (case zk_batch ops st of
        Inl (k, e) \<Rightarrow>
          ((replicate k okResponse @ [errResponse e]
              @ replicate (length ops - Suc k) (errResponse ErrUnknown), Some e), st)
      | Inr (resps, st1) \<Rightarrow> ((resps, None), st1))"

definition noStat :: Stat where
  "noStat = \<lparr>Version = 0\<rparr>"

definition statOf :: "zkstate \<Rightarrow> string \<Rightarrow> Stat" where
  "statOf st p = (case map_of st p of Some n \<Rightarrow> \<lparr>Version = zversion n\<rparr> | None \<Rightarrow> noStat)"

definition zk_children :: "string \<Rightarrow> zkstate \<Rightarrow> string list \<times> Stat \<times> error option" where
  "zk_children p st =
     (if zk_exists st p then (zk_childrenOf st p, statOf st p, None)
      else ([], noStat, Some ErrNoNode))"

definition zk_get :: "string \<Rightarrow> zkstate \<Rightarrow> bytes \<times> Stat \<times> error option" where
  "zk_get p st =
     (case map_of st p of
        Some n \<Rightarrow> (zdata n, \<lparr>Version = zversion n\<rparr>, None)
      | None \<Rightarrow> ([], noStat, Some ErrNoNode))"

definition zkService :: "zkstate Conn" where
  "zkService =
     \<lparr>conn_Create = (\<lambda>p val flags acl st.
          case zk_create p val flags st of
            Inl e \<Rightarrow> (([], Some e), st)
          | Inr st1 \<Rightarrow> ((p, None), st1)),
      conn_Set = (\<lambda>p val v st.
          case zk_set p val v st of
            Inl e \<Rightarrow> ((noStat, Some e), st)
          | Inr (stat, st1) \<Rightarrow> ((stat, None), st1)),
      conn_Children = (\<lambda>p st. (zk_children p st, st)),
      conn_ChildrenW = (\<lambda>p st.
          case zk_children p st of (names, stat, err) \<Rightarrow> ((names, stat, 0, err), st)),
      conn_Exists = (\<lambda>p st. ((zk_exists st p, statOf st p, None), st)),
      conn_ExistsW = (\<lambda>p st. ((zk_exists st p, statOf st p, 0, None), st)),
      conn_Get = (\<lambda>p st. (zk_get p st, st)),
      conn_GetW = (\<lambda>p st. case zk_get p st of (val, stat, err) \<Rightarrow> ((val, stat, 0, err), st)),
      conn_Multi = zk_multi\<rparr>"

subsection \<open>Concurrent actors and call traces\<close>

text \<open>
  Other clients of the service act between the calls of this client. A schedule lists
  what they do: before each call of the client, the next action of the schedule is run
  on the service state.
\<close>

definition step :: "('a \<Rightarrow> 's \<Rightarrow> 's) \<Rightarrow> 's \<times> 'a list \<Rightarrow> 's \<times> 'a list" where
  "step act sa =
     (case snd sa of [] \<Rightarrow> sa | a # as \<Rightarrow> (act a (fst sa), as))"

definition lift0 ::
  "('a \<Rightarrow> 's \<Rightarrow> 's) \<Rightarrow> ('s \<Rightarrow> 'r \<times> 's) \<Rightarrow> 's \<times> 'a list \<Rightarrow> 'r \<times> ('s \<times> 'a list)" where
  "lift0 act f sa =
     (case f (fst (step act sa)) of (r, s1) \<Rightarrow> (r, (s1, snd (step act sa))))"

definition interleaved :: "('a \<Rightarrow> 's \<Rightarrow> 's) \<Rightarrow> 's Conn \<Rightarrow> ('s \<times> 'a list) Conn" where
  "interleaved act k =
     \<lparr>conn_Create = (\<lambda>p val flags acl. lift0 act (conn_Create k p val flags acl)),
      conn_Set = (\<lambda>p val v. lift0 act (conn_Set k p val v)),
      conn_Children = (\<lambda>p. lift0 act (conn_Children k p)),
      conn_ChildrenW = (\<lambda>p. lift0 act (conn_ChildrenW k p)),
      conn_Exists = (\<lambda>p. lift0 act (conn_Exists k p)),
      conn_ExistsW = (\<lambda>p. lift0 act (conn_ExistsW k p)),
      conn_Get = (\<lambda>p. lift0 act (conn_Get k p)),
      conn_GetW = (\<lambda>p. lift0 act (conn_GetW k p)),
      conn_Multi = (\<lambda>ops. lift0 act (conn_Multi k ops))\<rparr>"

text \<open>The actions of the other clients of the reference service are batches.\<close>

definition otherClient :: "request list \<Rightarrow> zkstate \<Rightarrow> zkstate" where
  "otherClient ops st = snd (zk_multi ops st)"

text \<open>A connection that records every call made through it, in order.\<close>

datatype call =
    CallCreate string bytes int32 "ACL list"
  | CallSet string bytes int32
  | CallChildren string
  | CallChildrenW string
  | CallExists string
  | CallExistsW string
  | CallGet string
  | CallGetW string
  | CallMulti "request list"

definition logged ::
  "call \<Rightarrow> ('s \<Rightarrow> 'r \<times> 's) \<Rightarrow> 's \<times> call list \<Rightarrow> 'r \<times> ('s \<times> call list)" where
  "logged cl f sl = (case f (fst sl) of (r, s1) \<Rightarrow> (r, (s1, snd sl @ [cl])))"

definition traced :: "'s Conn \<Rightarrow> ('s \<times> call list) Conn" where
  "traced k =
     \<lparr>conn_Create = (\<lambda>p val flags acl.
          logged (CallCreate p val flags acl) (conn_Create k p val flags acl)),
      conn_Set = (\<lambda>p val v. logged (CallSet p val v) (conn_Set k p val v)),
      conn_Children = (\<lambda>p. logged (CallChildren p) (conn_Children k p)),
      conn_ChildrenW = (\<lambda>p. logged (CallChildrenW p) (conn_ChildrenW k p)),
      conn_Exists = (\<lambda>p. logged (CallExists p) (conn_Exists k p)),
      conn_ExistsW = (\<lambda>p. logged (CallExistsW p) (conn_ExistsW k p)),
      conn_Get = (\<lambda>p. logged (CallGet p) (conn_Get k p)),
      conn_GetW = (\<lambda>p. logged (CallGetW p) (conn_GetW k p)),
      conn_Multi = (\<lambda>ops. logged (CallMulti ops) (conn_Multi k ops))\<rparr>"

definition tracedClient :: "'s zkClient \<Rightarrow> ('s \<times> call list) zkClient" where
  "tracedClient c = \<lparr>conn = traced (conn c), prefixSegments = prefixSegments c\<rparr>"

subsection \<open>A key parser for the worked examples\<close>

text \<open>
  A key is a sequence of non-empty segments, each preceded by a slash.
\<close>

function segmentsOf :: "string \<Rightarrow> string list" where
  "segmentsOf [] = []"
| "segmentsOf (ch # cs) =
     takeWhile (\<lambda>x. x \<noteq> CHR ''/'') cs # segmentsOf (dropWhile (\<lambda>x. x \<noteq> CHR ''/'') cs)"
  by pat_completeness auto
termination
  by (relation "measure length") (auto simp: length_dropWhile_le less_Suc_eq_le)

definition slashKeys :: keyparser where
  "slashKeys key =
     (if key = [] \<or> hd key \<noteq> CHR ''/'' \<or> [] \<in> set (segmentsOf key)
      then Inl ''malformed key'' else Inr (segmentsOf key))"

definition zkClientAt :: "string list \<Rightarrow> zkstate zkClient" where
  "zkClientAt prefix = \<lparr>conn = zkService, prefixSegments = prefix\<rparr>"

subsection \<open>Notions used in the statements\<close>

text \<open>
  The invariant of the build phase: the boundaries do not decrease, the last one is the
  index of the last item (and there is a boundary as soon as there is an item), and
  \<^verbatim>\<open>rks\<close> has one entry per item.
\<close>

definition wellBuilt :: "build \<Rightarrow> bool" where
  "wellBuilt b =
     (case b of (boundaries, ops, rks) \<Rightarrow>
        sorted boundaries \<and>
        (if boundaries = [] then ops = [] else last boundaries = int (length ops) - 1) \<and>
        length rks = length ops)"

text \<open>
  The stronger invariant that holds as long as every operation has one of the three
  kinds: the boundaries increase strictly and are indices of items.
\<close>

definition strictlyBuilt :: "build \<Rightarrow> bool" where
  "strictlyBuilt b =
     (case b of (boundaries, ops, rks) \<Rightarrow>
        sorted_wrt (<) boundaries \<and> list_all (\<lambda>x. 0 \<le> x \<and> x < int (length ops)) boundaries)"

fun knownKind :: "opKind \<Rightarrow> bool" where
  "knownKind (otherKind k) = False"
| "knownKind kind = True"

text \<open>
  The result list as the specification words it, for the user-level operations and the
  boundary index of each: a create contributes (Create, 1), a set contributes (Set, the
  resulting native version of its item plus one), an erase contributes nothing, and
  neither does an operation of any other kind.
\<close>

definition resultingVersion :: "MultiResponse \<Rightarrow> int32" where
  "resultingVersion datum = (case mr_Stat datum of Some stat \<Rightarrow> Version stat | None \<Rightarrow> 0)"

fun specResults :: "TxnOp list \<Rightarrow> int list \<Rightarrow> MultiResponse list \<Rightarrow> TxnOpResult list" where
  "specResults [] bs data = []"
| "specResults (op # ops) [] data = []"
| "specResults (op # ops) (b # bs) data =
     (case op_What op of
        goffkv_Create \<Rightarrow> [\<lparr>res_What = goffkv_Create, res_Ver = 1\<rparr>]
      | goffkv_Set \<Rightarrow>
          [\<lparr>res_What = goffkv_Set, res_Ver = scast (resultingVersion (data ! nat b)) + 1\<rparr>]
      | goffkv_Erase \<Rightarrow> []
      | otherKind k \<Rightarrow> [])
     @ specResults ops bs data"

text \<open>The entries that the result kinds select from an answer, item by item.\<close>

fun kindResults :: "resultKind list \<Rightarrow> MultiResponse list \<Rightarrow> TxnOpResult list" where
  "kindResults (rk # rks) (datum # data) =
     (case rk of
        rkCreate \<Rightarrow> [\<lparr>res_What = goffkv_Create, res_Ver = 1\<rparr>]
      | rkSet \<Rightarrow> [\<lparr>res_What = goffkv_Set, res_Ver = scast (resultingVersion datum) + 1\<rparr>]
      | rkAux \<Rightarrow> [])
     @ kindResults rks data"
| "kindResults rks data = []"

text \<open>
  An item of a batch succeeded when its answer carries no error and, for a set-data item,
  the resulting \<^verbatim>\<open>Stat\<close>.
\<close>

fun succeeded :: "resultKind \<Rightarrow> MultiResponse \<Rightarrow> bool" where
  "succeeded rkSet datum = (mr_Error datum = None \<and> mr_Stat datum \<noteq> None)"
| "succeeded rk datum = (mr_Error datum = None)"

text \<open>Calls that only list children.\<close>

fun isListing :: "call \<Rightarrow> bool" where
  "isListing (CallChildren p) = True"
| "isListing cl = False"

text \<open>
  A call that, if it submits a batch, submits one whose first item is the version check
  of path \<open>p\<close> with expected version \<open>v\<close>.
\<close>

fun checksFirst :: "string \<Rightarrow> int32 \<Rightarrow> call \<Rightarrow> bool" where
  "checksFirst p v (CallMulti (CheckVersionRequest p' v' # ops)) = (p' = p \<and> v' = v)"
| "checksFirst p v (CallMulti ops) = False"
| "checksFirst p v cl = True"

text \<open>
  The check items of a transaction: one per check, for the path of its key and the
  expected version \<open>int32(ver) - 1\<close>. A call leads with a list of items when, if it
  submits a batch, the batch begins with them.
\<close>

definition checkItems :: "keyparser \<Rightarrow> 's zkClient \<Rightarrow> TxnCheck list \<Rightarrow> request list" where
  "checkItems kp c checks =
     map (\<lambda>ch. CheckVersionRequest (assemblePath c (fst (DisassembleKey kp (check_Key ch))))
                 (ucast (check_Ver ch) - 1)) checks"

fun leadsWith :: "request list \<Rightarrow> call \<Rightarrow> bool" where
  "leadsWith items (CallMulti ops) = (take (length items) ops = items)"
| "leadsWith items cl = True"

text \<open>The length of the longest path of a tree of the reference service.\<close>

definition maxPathLength :: "zkstate \<Rightarrow> nat" where
  "maxPathLength st = foldr (\<lambda>(p, n) m. max (length p) m) st 0"

section \<open>Properties\<close>

subsection \<open>Auxiliary facts\<close>

lemma DisassembleKey_Inr: "kp key = Inr segments \<Longrightarrow> DisassembleKey kp key = (segments, None)"
  by (simp add: DisassembleKey_def)


lemma assemblePath_tracedClient: "assemblePath (tracedClient c) segments = assemblePath c segments"
  by (simp add: assemblePath_def tracedClient_def)

lemma conn_tracedClient: "conn (tracedClient c) = traced (conn c)"
  by (simp add: tracedClient_def)

lemma traced_Create:
  "conn_Create (traced k) p val flags acl (s, log) =
     (fst (conn_Create k p val flags acl s),
      (snd (conn_Create k p val flags acl s), log @ [CallCreate p val flags acl]))"
  by (simp add: traced_def logged_def split: prod.splits)

lemma traced_Set:
  "conn_Set (traced k) p val v (s, log) =
     (fst (conn_Set k p val v s), (snd (conn_Set k p val v s), log @ [CallSet p val v]))"
  by (simp add: traced_def logged_def split: prod.splits)

lemma traced_Children:
  "conn_Children (traced k) p (s, log) =
     (fst (conn_Children k p s), (snd (conn_Children k p s), log @ [CallChildren p]))"
  by (simp add: traced_def logged_def split: prod.splits)

lemma traced_Multi:
  "conn_Multi (traced k) ops (s, log) =
     (fst (conn_Multi k ops s), (snd (conn_Multi k ops s), log @ [CallMulti ops]))"
  by (simp add: traced_def logged_def split: prod.splits)

lemma FlagEphemeral_nonzero: "FlagEphemeral \<noteq> 0"
  by (simp add: FlagEphemeral_def)

subsection \<open>Create\<close>

text \<open>
  Claim C7. For every key that decomposes, \<^verbatim>\<open>Create(key, value, lease)\<close> makes one
  node-creation call, with the ephemeral flag exactly when \<open>lease\<close> is true (the flag
  is not zero). When that call succeeds the result is user version 1; when it fails
  because the node exists the error is \<open>OpErrEntryExists\<close>; any other failure is
  returned through \<open>convertError\<close>.
\<close>

theorem Create_result:
  assumes "kp key = Inr segments"
    and "conn_Create (conn c) (assemblePath c segments) val
           (if lease then FlagEphemeral else 0) defaultAcl s = ((name, res), s1)"
  shows "(res = None \<longrightarrow> Create kp c key val lease s = ((1, None), s1))
       \<and> (res = Some ErrNodeExists \<longrightarrow>
            Create kp c key val lease s = ((0, Some OpErrEntryExists), s1))
       \<and> (\<forall>err. res = Some err \<longrightarrow>
            Create kp c key val lease s = ((0, Some (convertError err)), s1))
       \<and> snd (snd (Create kp (tracedClient c) key val lease (s, log))) =
            log @ [CallCreate (assemblePath c segments) val
                     (if lease then FlagEphemeral else 0) defaultAcl]
       \<and> FlagEphemeral \<noteq> 0"
  using assms
  by (auto simp: Create_def DisassembleKey_Inr assemblePath_tracedClient conn_tracedClient
        traced_Create FlagEphemeral_nonzero split: prod.splits option.splits)

lemma slashKeys_a: "slashKeys ''/a'' = Inr [''a'']"
  by (simp add: slashKeys_def)

theorem Create_result_witness:
  "Create slashKeys (zkClientAt []) ''/a'' [1] True [] =
     ((1, None), [(''/a'', \<lparr>zdata = [1], zversion = 0, zephemeral = True\<rparr>)])
   \<and> Create slashKeys (zkClientAt []) ''/a'' [2] False
        [(''/a'', \<lparr>zdata = [1], zversion = 0, zephemeral = True\<rparr>)] =
     ((0, Some OpErrEntryExists), [(''/a'', \<lparr>zdata = [1], zversion = 0, zephemeral = True\<rparr>)])"
proof -
  let ?st = "[(''/a'', \<lparr>zdata = [1], zversion = 0, zephemeral = True\<rparr>)]"
  have h1: "conn_Create (conn (zkClientAt [])) (assemblePath (zkClientAt []) [''a'']) [1]
              (if True then FlagEphemeral else 0) defaultAcl [] = ((''/a'', None), ?st)"
    by (simp add: zkClientAt_def zkService_def zk_create_def zk_exists_def parentPath_def
          assemblePath_def FlagEphemeral_def)
  have h2: "conn_Create (conn (zkClientAt [])) (assemblePath (zkClientAt []) [''a'']) [2]
              (if False then FlagEphemeral else 0) defaultAcl ?st = (([], Some ErrNodeExists), ?st)"
    by (simp add: zkClientAt_def zkService_def zk_create_def zk_exists_def parentPath_def
          assemblePath_def)
  from Create_result [where kp = slashKeys and key = "''/a''" and lease = True, OF slashKeys_a h1]
    Create_result [where kp = slashKeys and key = "''/a''" and lease = False, OF slashKeys_a h2]
  show ?thesis by simp
qed

subsection \<open>Set\<close>

text \<open>
  Claim C5. For every key that decomposes, \<^verbatim>\<open>Set\<close> first attempts creation (a
  persistent node) and returns user version 1 when that succeeds. When creation fails
  because the node exists, it overwrites with expected version \<open>-1\<close> (any version) and
  returns the resulting native version plus one; when that overwrite fails because the
  node is gone, it returns the sentinel \<open>1 << 62\<close> with no error.
\<close>

theorem Set_result:
  assumes "kp key = Inr segments"
    and "conn_Create (conn c) (assemblePath c segments) val 0 defaultAcl s = ((name, res), s1)"
    and "conn_Set (conn c) (assemblePath c segments) val (- 1) s1 = ((stat, res2), s2)"
  shows "(res = None \<longrightarrow> Set kp c key val s = ((1, None), s1))
       \<and> (res = Some ErrNodeExists \<and> res2 = None \<longrightarrow>
            Set kp c key val s = ((scast (Version stat) + 1, None), s2))
       \<and> (res = Some ErrNodeExists \<and> res2 = Some ErrNoNode \<longrightarrow>
            Set kp c key val s = ((push_bit 62 1, None), s2))
       \<and> (res = None \<longrightarrow>
            snd (snd (Set kp (tracedClient c) key val (s, log))) =
              log @ [CallCreate (assemblePath c segments) val 0 defaultAcl])
       \<and> (res = Some ErrNodeExists \<longrightarrow>
            snd (snd (Set kp (tracedClient c) key val (s, log))) =
              log @ [CallCreate (assemblePath c segments) val 0 defaultAcl,
                     CallSet (assemblePath c segments) val (- 1)])"
  using assms
  by (auto simp: Set_def DisassembleKey_Inr assemblePath_tracedClient conn_tracedClient
        traced_Create traced_Set split: prod.splits option.splits)

theorem Set_result_witness:
  "Set slashKeys (zkClientAt []) ''/a'' [1] [] =
     ((1, None), [(''/a'', \<lparr>zdata = [1], zversion = 0, zephemeral = False\<rparr>)])
   \<and> Set slashKeys (zkClientAt []) ''/a'' [2]
        [(''/a'', \<lparr>zdata = [1], zversion = 0, zephemeral = False\<rparr>)] =
     ((2, None), [(''/a'', \<lparr>zdata = [2], zversion = 1, zephemeral = False\<rparr>)])
   \<and> Set slashKeys \<lparr>conn = interleaved otherClient zkService, prefixSegments = []\<rparr> ''/a'' [2]
        ([(''/a'', \<lparr>zdata = [1], zversion = 0, zephemeral = False\<rparr>)],
         [[], [DeleteRequest ''/a'' (- 1)]]) =
     ((4611686018427387904, None), ([], []))"
proof -
  let ?st = "[(''/a'', \<lparr>zdata = [1], zversion = 0, zephemeral = False\<rparr>)]"
  let ?st2 = "[(''/a'', \<lparr>zdata = [2], zversion = 1, zephemeral = False\<rparr>)]"
  let ?c = "zkClientAt []"
  let ?ci = "\<lparr>conn = interleaved otherClient zkService, prefixSegments = []\<rparr>"
  have p: "assemblePath ?c [''a''] = ''/a''" "assemblePath ?ci [''a''] = ''/a''"
    by (simp_all add: assemblePath_def zkClientAt_def)
  have a1: "conn_Create (conn ?c) (assemblePath ?c [''a'']) [1] 0 defaultAcl [] = ((''/a'', None), ?st)"
    unfolding p by (simp add: zkClientAt_def zkService_def zk_create_def zk_exists_def parentPath_def)
  have a2: "conn_Set (conn ?c) (assemblePath ?c [''a'']) [1] (- 1) ?st =
              ((\<lparr>Version = 1\<rparr>, None), [(''/a'', \<lparr>zdata = [1], zversion = 1, zephemeral = False\<rparr>)])"
    unfolding p by (simp add: zkClientAt_def zkService_def zk_set_def versionOk_def)
  have b1: "conn_Create (conn ?c) (assemblePath ?c [''a'']) [2] 0 defaultAcl ?st = (([], Some ErrNodeExists), ?st)"
    unfolding p by (simp add: zkClientAt_def zkService_def zk_create_def zk_exists_def parentPath_def)
  have b2: "conn_Set (conn ?c) (assemblePath ?c [''a'']) [2] (- 1) ?st = ((\<lparr>Version = 1\<rparr>, None), ?st2)"
    unfolding p by (simp add: zkClientAt_def zkService_def zk_set_def versionOk_def)
  have c1: "conn_Create (conn ?ci) (assemblePath ?ci [''a'']) [2] 0 defaultAcl
              (?st, [[], [DeleteRequest ''/a'' (- 1)]]) =
            (([], Some ErrNodeExists), (?st, [[DeleteRequest ''/a'' (- 1)]]))"
    unfolding p
    by (simp add: interleaved_def lift0_def step_def otherClient_def zk_multi_def
          zkService_def zk_create_def zk_exists_def parentPath_def)
  have c2: "conn_Set (conn ?ci) (assemblePath ?ci [''a'']) [2] (- 1)
              (?st, [[DeleteRequest ''/a'' (- 1)]]) =
            ((noStat, Some ErrNoNode), ([], []))"
    unfolding p
    by (simp add: interleaved_def lift0_def step_def otherClient_def zk_multi_def
          zkService_def zk_set_def zk_delete_def versionOk_def zk_childrenOf_def
          childName_def List.map_filter_def)
  from Set_result [where kp = slashKeys and key = "''/a''", OF slashKeys_a a1 a2]
    Set_result [where kp = slashKeys and key = "''/a''", OF slashKeys_a b1 b2]
    Set_result [where kp = slashKeys and key = "''/a''", OF slashKeys_a c1 c2]
  show ?thesis by simp
qed

subsection \<open>Cas\<close>

lemma ucast_minus_one: "(ucast (- 1 :: Version) :: int32) = - 1"
  by (rule bit_word_eqI) (simp add: bit_ucast_iff)

lemma ucast_pred: fixes v :: Version shows "(ucast (v - 1) :: int32) = ucast v - 1"
proof -
  have "(ucast (v - 1) :: int32) = word_of_int (uint (v - 1))" by (rule ucast_eq)
  also have "\<dots> = word_of_int (take_bit LENGTH(64) (uint v - uint (1 :: Version)))"
    by (simp only: uint_word_arith_bintrs)
  also have "\<dots> = word_of_int (uint v - uint (1 :: Version))" by (rule wi_bintr) simp
  also have "\<dots> = word_of_int (uint v) - 1" by simp
  also have "\<dots> = ucast v - 1" by (simp only: ucast_eq)
  finally show ?thesis .
qed

lemma ucast_congruent:
  fixes v w :: Version
  shows "ucast v = (ucast w :: int32) \<longleftrightarrow> unat v mod 2 ^ 32 = unat w mod 2 ^ 32"
proof -
  have "ucast v = (ucast w :: int32) \<longleftrightarrow> unat (ucast v :: int32) = unat (ucast w :: int32)"
    by (rule word_unat_eq_iff)
  also have "\<dots> \<longleftrightarrow> take_bit 32 (unat v) = take_bit 32 (unat w)"
    by (simp add: unsigned_ucast_eq)
  also have "\<dots> \<longleftrightarrow> unat v mod 2 ^ 32 = unat w mod 2 ^ 32"
    by (simp add: take_bit_eq_mod)
  finally show ?thesis .
qed

lemma ucast_pred_in_range:
  fixes ver :: Version
  assumes "ver \<noteq> 0" "ver \<le> 2 ^ 31"
  shows "sint (ucast (ver - 1) :: int32) = uint ver - 1"
proof -
  have u: "uint (ver - 1) = uint ver - 1" using assms(1)
    by (simp add: uint_sub_if' word_le_def)
       (metis uint_1 word_le_def word_le_sub1 diff_zero uint_0_iff uint_minus_simple_alt)
  have "uint ver \<le> 2 ^ 31" using assms(2) by (simp add: word_le_def)
  with u have b: "uint (ver - 1) < 2 ^ 31" by simp
  have c: "uint (ucast (ver - 1) :: int32) = uint (ver - 1)"
    using b by (simp add: unsigned_ucast_eq take_bit_int_eq_self)
  have "signed_take_bit 31 (uint (ver - 1)) = uint (ver - 1)"
  proof (rule signed_take_bit_int_eq_self)
    show "- (2 ^ 31) \<le> uint (ver - 1)" by (rule order_trans [of _ 0]) simp_all
    show "uint (ver - 1) < 2 ^ 31" by (rule b)
  qed
  then have "sint (ucast (ver - 1) :: int32) = uint (ucast (ver - 1) :: int32)"
    using c by (simp add: sint_uint)
  with c u show ?thesis by simp
qed

text \<open>
  Claim C4, as the code has it. For every key that decomposes: \<^verbatim>\<open>Cas(key, value, 0)\<close>
  is \<^verbatim>\<open>Create(key, value, false)\<close> with an already-exists failure turned into the
  conflict result (version 0, no error), and the created version returned on success.
  \<^verbatim>\<open>Cas(key, value, ver)\<close> with \<open>ver > 0\<close> makes one overwrite call whose expected
  native version is \<open>int32(ver - 1)\<close>, the low 32 bits of \<open>ver - 1\<close>: the number
  \<open>ver - 1\<close> for every \<open>ver\<close> up to \<open>2^31\<close>, and \<open>-1\<close>, which the service takes
  as any version, when the low 32 bits of \<open>ver\<close> are zero. When the service reports a
  version mismatch the result is (0, no error); when it reports a missing node the error
  is \<open>OpErrNoEntry\<close>; success gives the resulting native version plus one. On the
  reference service a node whose native version differs from \<open>int32(ver - 1)\<close>, when
  this is not \<open>-1\<close>, is left as it was.
\<close>

theorem Cas_result:
  assumes "kp key = Inr segments"
    and "conn_Create (conn c) (assemblePath c segments) val 0 defaultAcl s = ((name, res), s1)"
    and "conn_Set (conn c) (assemblePath c segments) val (ucast (ver - 1)) s = ((stat, res2), s2)"
  shows "(case Create kp c key val False s of
            ((v, None), t) \<Rightarrow> ((v, None), t)
          | ((v, Some e), t) \<Rightarrow> if e = OpErrEntryExists then ((0, None), t) else ((0, Some e), t))
           = Cas kp c key val 0 s
       \<and> (res = None \<longrightarrow> Cas kp c key val 0 s = ((1, None), s1))
       \<and> (res = Some ErrNodeExists \<longrightarrow> Cas kp c key val 0 s = ((0, None), s1))
       \<and> (ver \<noteq> 0 \<and> res2 = None \<longrightarrow>
            Cas kp c key val ver s = ((scast (Version stat) + 1, None), s2))
       \<and> (ver \<noteq> 0 \<and> res2 = Some ErrBadVersion \<longrightarrow> Cas kp c key val ver s = ((0, None), s2))
       \<and> (ver \<noteq> 0 \<and> res2 = Some ErrNoNode \<longrightarrow>
            Cas kp c key val ver s = ((0, Some OpErrNoEntry), s2))
       \<and> (ver \<noteq> 0 \<longrightarrow>
            snd (snd (Cas kp (tracedClient c) key val ver (s, log))) =
              log @ [CallSet (assemblePath c segments) val (ucast (ver - 1))])
       \<and> (ver \<noteq> 0 \<and> ver \<le> 2 ^ 31 \<longrightarrow> sint (ucast (ver - 1) :: int32) = uint ver - 1)
       \<and> ((ucast ver :: int32) = 0 \<longrightarrow> (ucast (ver - 1) :: int32) = - 1)
       \<and> (\<forall>st node. ver \<noteq> 0 \<and>
             map_of st (assemblePath (zkClientAt prefix) segments) = Some node \<and>
             (ucast (ver - 1) :: int32) \<noteq> - 1 \<and> ucast (ver - 1) \<noteq> zversion node \<longrightarrow>
             Cas kp (zkClientAt prefix) key val ver st = ((0, None), st))
       \<and> (\<forall>st. ver \<noteq> 0 \<and> map_of st (assemblePath (zkClientAt prefix) segments) = None \<longrightarrow>
             Cas kp (zkClientAt prefix) key val ver st = ((0, Some OpErrNoEntry), st))"
proof -
  have z: "Cas kp c key val 0 s =
           (case Create kp c key val False s of
              ((v, None), t) \<Rightarrow> ((v, None), t)
            | ((v, Some e), t) \<Rightarrow> if e = OpErrEntryExists then ((0, None), t) else ((0, Some e), t))"
    by (simp add: Cas_def)
  have z': "(case Create kp c key val False s of
            ((v, None), t) \<Rightarrow> ((v, None), t)
          | ((v, Some e), t) \<Rightarrow> if e = OpErrEntryExists then ((0, None), t) else ((0, Some e), t))
           = Cas kp c key val 0 s"
    by (simp add: Cas_def)
  have cr: "Create kp c key val False s =
              ((case res of None \<Rightarrow> (1, None) | Some err \<Rightarrow> (0, Some (convertError err))), s1)"
    using assms(1,2)
    by (auto simp: Create_def DisassembleKey_Inr split: prod.splits option.splits)
  have a: "res = None \<longrightarrow> Cas kp c key val 0 s = ((1, None), s1)"
    by (simp add: z cr)
  have b: "res = Some ErrNodeExists \<longrightarrow> Cas kp c key val 0 s = ((0, None), s1)"
    by (simp add: z cr)
  have d: "ver \<noteq> 0 \<longrightarrow>
       Cas kp c key val ver s =
         ((case res2 of None \<Rightarrow> (scast (Version stat) + 1, None)
           | Some err \<Rightarrow> if err = ErrBadVersion then (0, None) else (0, Some (convertError err))), s2)"
    using assms(1,3)
    by (auto simp: Cas_def DisassembleKey_Inr split: prod.splits option.splits)
  have e: "ver \<noteq> 0 \<longrightarrow>
            snd (snd (Cas kp (tracedClient c) key val ver (s, log))) =
              log @ [CallSet (assemblePath c segments) val (ucast (ver - 1))]"
    using assms(1)
    by (auto simp: Cas_def DisassembleKey_Inr assemblePath_tracedClient conn_tracedClient
          traced_Set split: prod.splits option.splits)
  have f: "ver \<noteq> 0 \<and> ver \<le> 2 ^ 31 \<longrightarrow> sint (ucast (ver - 1) :: int32) = uint ver - 1"
    using ucast_pred_in_range by blast
  from d have d1: "ver \<noteq> 0 \<and> res2 = None \<longrightarrow>
            Cas kp c key val ver s = ((scast (Version stat) + 1, None), s2)" by simp
  from d have d2: "ver \<noteq> 0 \<and> res2 = Some ErrBadVersion \<longrightarrow> Cas kp c key val ver s = ((0, None), s2)"
    by simp
  from d have d3: "ver \<noteq> 0 \<and> res2 = Some ErrNoNode \<longrightarrow>
            Cas kp c key val ver s = ((0, Some OpErrNoEntry), s2)" by simp
  have g: "(ucast ver :: int32) = 0 \<longrightarrow> (ucast (ver - 1) :: int32) = - 1"
    by (simp add: ucast_pred)
  have h: "\<forall>st node. ver \<noteq> 0 \<and>
             map_of st (assemblePath (zkClientAt prefix) segments) = Some node \<and>
             (ucast (ver - 1) :: int32) \<noteq> - 1 \<and> ucast (ver - 1) \<noteq> zversion node \<longrightarrow>
             Cas kp (zkClientAt prefix) key val ver st = ((0, None), st)"
    using assms(1)
    by (simp add: Cas_def DisassembleKey_Inr zkClientAt_def zkService_def zk_set_def versionOk_def)
  have i: "\<forall>st. ver \<noteq> 0 \<and> map_of st (assemblePath (zkClientAt prefix) segments) = None \<longrightarrow>
             Cas kp (zkClientAt prefix) key val ver st = ((0, Some OpErrNoEntry), st)"
    using assms(1)
    by (simp add: Cas_def DisassembleKey_Inr zkClientAt_def zkService_def zk_set_def)
  from z' a b d1 d2 d3 e f g h i show ?thesis by blast
qed

theorem Cas_result_witness:
  "Cas slashKeys (zkClientAt []) ''/a'' [1] 0 [] =
     ((1, None), [(''/a'', \<lparr>zdata = [1], zversion = 0, zephemeral = False\<rparr>)])
   \<and> Cas slashKeys (zkClientAt []) ''/a'' [2] 0
        [(''/a'', \<lparr>zdata = [1], zversion = 0, zephemeral = False\<rparr>)] =
     ((0, None), [(''/a'', \<lparr>zdata = [1], zversion = 0, zephemeral = False\<rparr>)])
   \<and> Cas slashKeys (zkClientAt []) ''/a'' [2] 1
        [(''/a'', \<lparr>zdata = [1], zversion = 0, zephemeral = False\<rparr>)] =
     ((2, None), [(''/a'', \<lparr>zdata = [2], zversion = 1, zephemeral = False\<rparr>)])
   \<and> Cas slashKeys (zkClientAt []) ''/a'' [2] 5
        [(''/a'', \<lparr>zdata = [1], zversion = 0, zephemeral = False\<rparr>)] =
     ((0, None), [(''/a'', \<lparr>zdata = [1], zversion = 0, zephemeral = False\<rparr>)])
   \<and> Cas slashKeys (zkClientAt []) ''/a'' [2] 5 [] = ((0, Some OpErrNoEntry), [])"
proof -
  let ?st = "[(''/a'', \<lparr>zdata = [1], zversion = 0, zephemeral = False\<rparr>)]"
  let ?st2 = "[(''/a'', \<lparr>zdata = [2], zversion = 1, zephemeral = False\<rparr>)]"
  let ?c = "zkClientAt []"
  have p: "assemblePath ?c [''a''] = ''/a''"
    by (simp add: assemblePath_def zkClientAt_def)
  have cr: "conn_Create (conn ?c) (assemblePath ?c [''a'']) [1] 0 defaultAcl [] = ((''/a'', None), ?st)"
    "conn_Create (conn ?c) (assemblePath ?c [''a'']) [2] 0 defaultAcl ?st = (([], Some ErrNodeExists), ?st)"
    "conn_Create (conn ?c) (assemblePath ?c [''a'']) [2] 0 defaultAcl [] =
       ((''/a'', None), [(''/a'', \<lparr>zdata = [2], zversion = 0, zephemeral = False\<rparr>)])"
    unfolding p
    by (simp_all add: zkClientAt_def zkService_def zk_create_def zk_exists_def parentPath_def)
  have st: "conn_Set (conn ?c) (assemblePath ?c [''a'']) [1] (ucast (0 - 1 :: Version)) [] =
              ((noStat, Some ErrNoNode), [])"
    "conn_Set (conn ?c) (assemblePath ?c [''a'']) [2] (ucast (0 - 1 :: Version)) ?st =
              ((\<lparr>Version = 1\<rparr>, None), ?st2)"
    "conn_Set (conn ?c) (assemblePath ?c [''a'']) [2] (ucast (1 - 1 :: Version)) ?st =
              ((\<lparr>Version = 1\<rparr>, None), ?st2)"
    "conn_Set (conn ?c) (assemblePath ?c [''a'']) [2] (ucast (5 - 1 :: Version)) ?st =
              ((noStat, Some ErrBadVersion), ?st)"
    "conn_Set (conn ?c) (assemblePath ?c [''a'']) [2] (ucast (5 - 1 :: Version)) [] =
              ((noStat, Some ErrNoNode), [])"
    unfolding p
    by (simp_all add: zkClientAt_def zkService_def zk_set_def versionOk_def ucast_minus_one)
  from Cas_result [where kp = slashKeys and key = "''/a''" and ver = 0, OF slashKeys_a cr(1) st(1)]
    Cas_result [where kp = slashKeys and key = "''/a''" and ver = 0, OF slashKeys_a cr(2) st(2)]
    Cas_result [where kp = slashKeys and key = "''/a''" and ver = 1, OF slashKeys_a cr(2) st(3)]
    Cas_result [where kp = slashKeys and key = "''/a''" and ver = 5, OF slashKeys_a cr(2) st(4)]
    Cas_result [where kp = slashKeys and key = "''/a''" and ver = 5, OF slashKeys_a cr(3) st(5)]
  show ?thesis by simp
qed


text \<open>
  The claim as stated, that the overwrite requires the native version \<open>ver - 1\<close> and
  a mismatch gives (0, no error), fails where the conversion to 32 bits changes the
  number: for \<open>ver = 2^32\<close> the expected version sent is \<open>-1\<close>, and a node at native
  version 7 is overwritten.
\<close>

theorem Cas_wrapped_version_counterexample:
  "Cas slashKeys (zkClientAt []) ''/a'' [2] 4294967296
     [(''/a'', \<lparr>zdata = [1], zversion = 7, zephemeral = False\<rparr>)] =
   ((9, None), [(''/a'', \<lparr>zdata = [2], zversion = 8, zephemeral = False\<rparr>)])"
  by code_simp

subsection \<open>Erase: vanished nodes\<close>

text \<open>
  Claim C6. During the expansion of an erase, a listed child whose own listing fails
  because the node is gone is skipped: the loop goes on with the remaining children from
  the state the service is then in, with the same items and no error. If the listing of
  the only child vanishes this way, the expansion of the target is the delete of the target
  alone, without error. If the listing of the target itself fails because the node is gone, \<^verbatim>\<open>Erase\<close> fails with
  \<open>OpErrNoEntry\<close>, whatever the requested version, and no batch is submitted.
\<close>

theorem Erase_vanished:
  "(conn_Children (conn c) (assemblePath c (segments @ [child])) s =
      ((names, stat, Some ErrNoNode), s1) \<longrightarrow>
    eraseChildren (Suc d) c ops segments (child # children) s =
      eraseChildren (Suc d) c ops segments children s1)
   \<and> (conn_Children (conn c) (assemblePath c segments) s0 = (([child], stat0, None), s) \<and>
       conn_Children (conn c) (assemblePath c (segments @ [child])) s =
         ((names, stat, Some ErrNoNode), s1) \<longrightarrow>
       makeEraseQuery (Suc (Suc d)) c ops segments s0 =
         Some ((ops @ [DeleteRequest (assemblePath c segments) (- 1)], None), s1))
   \<and> (kp key = Inr segments \<and>
       conn_Children (conn c) (assemblePath c segments) s = ((names, stat, Some ErrNoNode), s1) \<longrightarrow>
       (\<forall>ver. Erase (Suc n) (Suc d) kp c key ver s = Some (Return (Some OpErrNoEntry), s1)) \<and>
       (\<forall>ver log. snd (snd (the (Erase (Suc n) (Suc d) kp (tracedClient c) key ver (s, log)))) =
            log @ [CallChildren (assemblePath c segments)]))"
  by (auto simp: Erase_def DisassembleKey_Inr assemblePath_tracedClient conn_tracedClient
        traced_Children)

lemma slashKeys_k: "slashKeys ''/k'' = Inr [''k'']"
  by (simp add: slashKeys_def)

theorem Erase_vanished_witness:
  "eraseChildren 1 \<lparr>conn = interleaved otherClient zkService, prefixSegments = []\<rparr>
      [CheckVersionRequest ''/k'' 0] [''k''] [''a'']
      ([(''/k'', \<lparr>zdata = [], zversion = 0, zephemeral = False\<rparr>),
        (''/k/a'', \<lparr>zdata = [], zversion = 0, zephemeral = False\<rparr>)],
       [[DeleteRequest ''/k/a'' (- 1)]]) =
     Some (([CheckVersionRequest ''/k'' 0], None),
           ([(''/k'', \<lparr>zdata = [], zversion = 0, zephemeral = False\<rparr>)], []))
   \<and> Erase 1 1 slashKeys (zkClientAt []) ''/k'' 7 [] = Some (Return (Some OpErrNoEntry), [])"
proof -
  let ?ci = "\<lparr>conn = interleaved otherClient zkService, prefixSegments = []\<rparr>"
  let ?k = "(''/k'', \<lparr>zdata = [], zversion = 0, zephemeral = False\<rparr>)"
  let ?a = "(''/k/a'', \<lparr>zdata = [], zversion = 0, zephemeral = False\<rparr>)"
  have h1: "conn_Children (conn ?ci) (assemblePath ?ci ([''k''] @ [''a'']))
              ([?k, ?a], [[DeleteRequest ''/k/a'' (- 1)]]) =
            (([], noStat, Some ErrNoNode), ([?k], []))"
    by (simp add: assemblePath_def interleaved_def lift0_def step_def otherClient_def
          zk_multi_def zkService_def zk_children_def zk_exists_def zk_delete_def
          versionOk_def zk_childrenOf_def childName_def List.map_filter_def)
  have h2: "conn_Children (conn (zkClientAt [])) (assemblePath (zkClientAt []) [''k'']) [] =
            (([], noStat, Some ErrNoNode), [])"
    by (simp add: assemblePath_def zkClientAt_def zkService_def zk_children_def zk_exists_def)
  from Erase_vanished [where c = ?ci and segments = "[''k'']" and child = "''a''" and d = 0
        and children = "[]" and ops = "[CheckVersionRequest ''/k'' 0]"] h1
  have a: "eraseChildren 1 ?ci [CheckVersionRequest ''/k'' 0] [''k''] [''a'']
             ([?k, ?a], [[DeleteRequest ''/k/a'' (- 1)]]) =
           Some (([CheckVersionRequest ''/k'' 0], None), ([?k], []))"
    by simp
  from Erase_vanished [where c = "zkClientAt []" and segments = "[''k'']" and kp = slashKeys
        and key = "''/k''" and n = 0 and d = 0] slashKeys_k h2
  have b: "Erase 1 1 slashKeys (zkClientAt []) ''/k'' 7 [] = Some (Return (Some OpErrNoEntry), [])"
    by simp
  from a b show ?thesis by simp
qed


subsection \<open>Malformed keys\<close>









subsection \<open>The shape of an erase expansion\<close>

lemma makeEraseQuery_extends:
  "makeEraseQuery d c ops segments s = Some ((ops1, err), s1) \<Longrightarrow>
     \<exists>extra. ops1 = ops @ extra \<and> (err = None \<longrightarrow> extra \<noteq> []) \<and>
             (err = Some ErrNoNode \<longrightarrow> extra = [])"
  "eraseChildren d c ops segments children s = Some ((ops1, err), s1) \<Longrightarrow>
     \<exists>extra. ops1 = ops @ extra \<and> err \<noteq> Some ErrNoNode"
proof (induction d c ops segments s and d c ops segments children s
       arbitrary: ops1 err s1 and ops1 err s1 rule: makeEraseQuery_eraseChildren.induct)
  case (1 c ops segments s)
  then show ?case by simp
next
  case (2 d c ops segments s)
  obtain names stat res s0 where
    l: "conn_Children (conn c) (assemblePath c segments) s = ((names, stat, res), s0)"
    by (metis prod.exhaust)
  show ?case
  proof (cases res)
    case (Some e)
    with 2(2) l show ?thesis by auto
  next
    case None
    with 2(2) l obtain r where r: "eraseChildren d c ops segments names s0 = Some r"
      by (auto split: option.splits)
    obtain opsr errr sr where r': "r = ((opsr, errr), sr)" by (metis prod.exhaust)
    from "2.IH" [OF l [symmetric] refl refl None r [unfolded r']]
    obtain extra where e: "opsr = ops @ extra" "errr \<noteq> Some ErrNoNode" by blast
    from 2(2) l None r r' e show ?thesis by (auto split: option.splits)
  qed
next
  case (3 d c ops segments s)
  then show ?case by simp
next
  case (4 d c ops segments child children s)
  from 4(3) obtain m where m: "makeEraseQuery d c ops (segments @ [child]) s = Some m"
    by (auto split: option.splits)
  obtain opsm errm sm where m': "m = ((opsm, errm), sm)" by (metis prod.exhaust)
  from "4.IH"(1) [OF m [unfolded m']] obtain extra1 where e1: "opsm = ops @ extra1" by blast
  show ?case
  proof (cases "errm \<noteq> None \<and> errm \<noteq> Some ErrNoNode")
    case True
    with 4(3) m m' e1 show ?thesis by auto
  next
    case False
    with 4(3) m m' have r: "eraseChildren d c opsm segments children sm = Some ((ops1, err), s1)"
      by auto
    from "4.IH"(2) [OF m [unfolded m'] refl refl False r]
    obtain extra2 where "ops1 = opsm @ extra2" "err \<noteq> Some ErrNoNode" by blast
    with e1 show ?thesis by simp
  qed
qed


subsection \<open>The build phase of Commit\<close>

text \<open>
  One turn of the loop over the operations: the items \<open>extra\<close> and the result kinds
  \<open>blk\<close> that the operation appends, by kind, and the boundary recorded after them.
\<close>

lemma commitOps_step:
  assumes "commitOps d kp c (x # xs) (boundaries, ops, rks) s = Some (Inr b', s')"
  shows "\<exists>extra blk s1.
           commitOps d kp c xs
             (boundaries @ [int (length (ops @ extra)) - 1], ops @ extra, rks @ blk) s1
             = Some (Inr b', s')
         \<and> length blk = length extra
         \<and> (case op_What x of
               goffkv_Create \<Rightarrow> blk = [rkCreate]
             | goffkv_Set \<Rightarrow> blk = [rkSet]
             | goffkv_Erase \<Rightarrow> blk = replicate (length extra) rkAux \<and> extra \<noteq> []
             | otherKind k \<Rightarrow> extra = [])"
proof -
  obtain segs e where dk: "DisassembleKey kp (op_Key x) = (segs, e)" by (metis prod.exhaust)
  with assms have e: "e = None" by (cases e) auto
  show ?thesis
  proof (cases "op_What x")
    case goffkv_Create
    let ?extra = "[CreateRequest (assemblePath c segs) (op_Value x) defaultAcl
                     (if op_Lease x then FlagEphemeral else 0)]"
    from assms dk e goffkv_Create
    have "commitOps d kp c xs
            (boundaries @ [int (length (ops @ ?extra)) - 1], ops @ ?extra, rks @ [rkCreate]) s
            = Some (Inr b', s')"
      by (simp add: Let_def)
    with goffkv_Create show ?thesis
      by (intro exI [of _ ?extra] exI [of _ "[rkCreate]"] exI [of _ s]) simp
  next
    case goffkv_Set
    let ?extra = "[SetDataRequest (assemblePath c segs) (op_Value x) (- 1)]"
    from assms dk e goffkv_Set
    have "commitOps d kp c xs
            (boundaries @ [int (length (ops @ ?extra)) - 1], ops @ ?extra, rks @ [rkSet]) s
            = Some (Inr b', s')"
      by (simp add: Let_def)
    with goffkv_Set show ?thesis
      by (intro exI [of _ ?extra] exI [of _ "[rkSet]"] exI [of _ s]) simp
  next
    case goffkv_Erase
    with assms dk e obtain m where m: "makeEraseQuery d c ops segs s = Some m"
      by (auto split: option.splits)
    obtain opsm errm sm where m': "m = ((opsm, errm), sm)" by (metis prod.exhaust)
    from makeEraseQuery_extends(1) [OF m [unfolded m']] obtain extra where
      ex: "opsm = ops @ extra" "errm = None \<longrightarrow> extra \<noteq> []" by blast
    show ?thesis
    proof (cases errm)
      case None
      from None assms dk e goffkv_Erase m m' ex(1)
      have "commitOps d kp c xs
              (boundaries @ [int (length (ops @ extra)) - 1], ops @ extra,
               rks @ replicate (length extra) rkAux) sm
              = Some (Inr b', s')"
        by simp
      with None ex goffkv_Erase show ?thesis
        by (intro exI [of _ extra] exI [of _ "replicate (length extra) rkAux"] exI [of _ sm]) simp
    next
      case (Some er)
      with assms dk e goffkv_Erase m m' have er: "er = ErrNoNode"
        by (auto split: if_splits)
      let ?extra = "extra @ [DeleteRequest (assemblePath c segs) (- 1)]"
      from er Some assms dk e goffkv_Erase m m' ex(1)
      have "commitOps d kp c xs
              (boundaries @ [int (length (ops @ ?extra)) - 1], ops @ ?extra,
               rks @ replicate (length ?extra) rkAux) sm
              = Some (Inr b', s')"
        by (simp add: Let_def)
      with goffkv_Erase show ?thesis
        by (intro exI [of _ ?extra] exI [of _ "replicate (length ?extra) rkAux"] exI [of _ sm])
           simp
    qed
  next
    case (otherKind k)
    from assms dk e otherKind
    have "commitOps d kp c xs
            (boundaries @ [int (length (ops @ [])) - 1], ops @ [], rks @ []) s
            = Some (Inr b', s')"
      by simp
    with otherKind show ?thesis
      by (intro exI [of _ "[]"] exI [of _ "[]"] exI [of _ s]) simp
  qed
qed

lemma sorted_le_last:
  fixes xs :: "int list"
  shows "sorted xs \<Longrightarrow> x \<in> set xs \<Longrightarrow> x \<le> last xs"
  by (induction xs) auto

lemma wellBuilt_step:
  assumes "wellBuilt (boundaries, ops, rks)" "length ops \<le> length ops1" "length rks1 = length ops1"
  shows "wellBuilt (boundaries @ [int (length ops1) - 1], ops1, rks1)"
proof -
  from assms(1) have s: "sorted boundaries"
    and l: "boundaries \<noteq> [] \<Longrightarrow> last boundaries = int (length ops) - 1"
    by (auto simp: wellBuilt_def split: if_splits)
  have "x \<le> int (length ops1) - 1" if "x \<in> set boundaries" for x
  proof -
    from that have "boundaries \<noteq> []" by auto
    with s that l have "x \<le> int (length ops) - 1" using sorted_le_last by fastforce
    with assms(2) show ?thesis by simp
  qed
  with s assms(3) show ?thesis
    by (auto simp: wellBuilt_def sorted_append)
qed

lemma strictlyBuilt_step:
  assumes "strictlyBuilt (boundaries, ops, rks)" "length ops < length ops1"
  shows "strictlyBuilt (boundaries @ [int (length ops1) - 1], ops1, rks1)"
  using assms by (auto simp: strictlyBuilt_def sorted_wrt_append list_all_iff)

lemma commitChecks_wellBuilt:
  "commitChecks kp c checks b = Inr b' \<Longrightarrow> wellBuilt b \<Longrightarrow> strictlyBuilt b \<Longrightarrow>
   wellBuilt b' \<and> strictlyBuilt b' \<and> length (fst b') = length (fst b) + length checks"
proof (induction checks arbitrary: b)
  case Nil
  then show ?case by simp
next
  case (Cons x xs)
  obtain boundaries ops rks where b: "b = (boundaries, ops, rks)" using prod_cases3 by blast
  obtain segs e where dk: "DisassembleKey kp (check_Key x) = (segs, e)" by (metis prod.exhaust)
  with Cons.prems(1) b have e: "e = None" by (cases e) auto
  let ?ops1 = "ops @ [CheckVersionRequest (assemblePath c segs) (ucast (check_Ver x) - 1)]"
  let ?b1 = "(boundaries @ [int (length ?ops1) - 1], ?ops1, rks @ [rkAux])"
  from Cons.prems(1) b dk e have r: "commitChecks kp c xs ?b1 = Inr b'"
    by (simp add: Let_def)
  from Cons.prems(2) b have "length rks = length ops" by (simp add: wellBuilt_def)
  with Cons.prems(2) b have w: "wellBuilt ?b1" by (intro wellBuilt_step [of boundaries ops rks]) auto
  from Cons.prems(3) b have st: "strictlyBuilt ?b1"
    by (intro strictlyBuilt_step [of boundaries ops rks]) auto
  from Cons.IH [OF r w st] b show ?case by simp
qed

lemma commitOps_wellBuilt:
  "commitOps d kp c uops b s = Some (Inr b', s') \<Longrightarrow> wellBuilt b \<Longrightarrow>
   wellBuilt b' \<and> length (fst b') = length (fst b) + length uops \<and>
   (\<exists>extra. fst (snd b') = fst (snd b) @ extra)"
proof (induction uops arbitrary: b s)
  case Nil
  then show ?case by simp
next
  case (Cons x xs)
  obtain boundaries ops rks where b: "b = (boundaries, ops, rks)" using prod_cases3 by blast
  from Cons.prems(2) b have len: "length rks = length ops" by (simp add: wellBuilt_def)
  from commitOps_step [OF Cons.prems(1) [unfolded b]] obtain extra blk s1 where
    r: "commitOps d kp c xs
          (boundaries @ [int (length (ops @ extra)) - 1], ops @ extra, rks @ blk) s1
          = Some (Inr b', s')"
    and l: "length blk = length extra" by blast
  from Cons.prems(2) b l len
  have "wellBuilt (boundaries @ [int (length (ops @ extra)) - 1], ops @ extra, rks @ blk)"
    by (intro wellBuilt_step [of boundaries ops rks]) auto
  from Cons.IH [OF r this] b show ?case by auto
qed

lemma commitOps_strictlyBuilt:
  "commitOps d kp c uops b s = Some (Inr b', s') \<Longrightarrow> strictlyBuilt b \<Longrightarrow>
   list_all (\<lambda>op. knownKind (op_What op)) uops \<Longrightarrow> strictlyBuilt b'"
proof (induction uops arbitrary: b s)
  case Nil
  then show ?case by simp
next
  case (Cons x xs)
  obtain boundaries ops rks where b: "b = (boundaries, ops, rks)" using prod_cases3 by blast
  from commitOps_step [OF Cons.prems(1) [unfolded b]] obtain extra blk s1 where
    r: "commitOps d kp c xs
          (boundaries @ [int (length (ops @ extra)) - 1], ops @ extra, rks @ blk) s1
          = Some (Inr b', s')"
    and k: "case op_What x of
               goffkv_Create \<Rightarrow> blk = [rkCreate]
             | goffkv_Set \<Rightarrow> blk = [rkSet]
             | goffkv_Erase \<Rightarrow> blk = replicate (length extra) rkAux \<and> extra \<noteq> []
             | otherKind k \<Rightarrow> extra = []"
    and l: "length blk = length extra" by blast
  from Cons.prems(3) k l have "extra \<noteq> []"
    by (cases "op_What x") auto
  with Cons.prems(2) b
  have "strictlyBuilt (boundaries @ [int (length (ops @ extra)) - 1], ops @ extra, rks @ blk)"
    by (intro strictlyBuilt_step [of boundaries ops rks]) auto
  from Cons.IH [OF r this] Cons.prems(3) show ?case by simp
qed

lemma toUserOpIndex_from_found:
  "\<exists>x\<in>set boundaries. op \<le> x \<Longrightarrow>
   i \<le> toUserOpIndex_from i boundaries op \<and>
   toUserOpIndex_from i boundaries op < i + int (length boundaries) \<and>
   op \<le> boundaries ! nat (toUserOpIndex_from i boundaries op - i) \<and>
   (\<forall>j<nat (toUserOpIndex_from i boundaries op - i). boundaries ! j < op)"
proof (induction boundaries arbitrary: i)
  case Nil
  then show ?case by simp
next
  case (Cons x xs)
  show ?case
  proof (cases "op \<le> x")
    case True
    then show ?thesis by simp
  next
    case False
    with Cons.prems have ex: "\<exists>y\<in>set xs. op \<le> y" by auto
    let ?t = "toUserOpIndex_from (i + 1) xs op"
    from Cons.IH [OF ex, of "i + 1"]
    have ih: "i + 1 \<le> ?t" "?t < i + 1 + int (length xs)" "op \<le> xs ! nat (?t - (i + 1))"
      "\<forall>j<nat (?t - (i + 1)). xs ! j < op"
      by simp_all
    from ih(1) have n: "nat (?t - i) = Suc (nat (?t - (i + 1)))" by simp
    have "(x # xs) ! j < op" if "j < Suc (nat (?t - (i + 1)))" for j
      using that ih(4) False by (cases j) auto
    with ih n False show ?thesis by simp
  qed
qed

lemma toUserOpIndex_from_none:
  "\<forall>x\<in>set boundaries. x < op \<Longrightarrow> toUserOpIndex_from i boundaries op = - 1"
  by (induction boundaries arbitrary: i) auto

lemma wellBuilt_owner:
  assumes "wellBuilt (boundaries, ops, rks)" "i < length ops"
  shows "0 \<le> toUserOpIndex boundaries (int i)
       \<and> nat (toUserOpIndex boundaries (int i)) < length boundaries
       \<and> int i \<le> boundaries ! nat (toUserOpIndex boundaries (int i))
       \<and> (\<forall>j<nat (toUserOpIndex boundaries (int i)). boundaries ! j < int i)"
proof -
  from assms have ne: "boundaries \<noteq> []" and l: "last boundaries = int (length ops) - 1"
    by (auto simp: wellBuilt_def split: if_splits)
  from ne have "last boundaries \<in> set boundaries" by simp
  with l assms(2) have "\<exists>x\<in>set boundaries. int i \<le> x" by (intro bexI [of _ "last boundaries"]) auto
  from toUserOpIndex_from_found [OF this, of 0] show ?thesis
    by (auto simp: toUserOpIndex_def)
qed

lemma reconcile_owner_found:
  "\<forall>j<n. 0 \<le> toUserOpIndex boundaries (int j) \<Longrightarrow> i + length data \<le> n \<Longrightarrow>
   reconcile boundaries rks i data result \<noteq> Panicked ''txn failed on non-existing op''"
proof (induction data arbitrary: i result)
  case Nil
  then show ?case by simp
next
  case (Cons datum data)
  from Cons.prems have "0 \<le> toUserOpIndex boundaries (int i)" by simp
  moreover have "reconcile boundaries rks (Suc i) data r \<noteq> Panicked ''txn failed on non-existing op''" for r
    using Cons.IH [of "Suc i" r] Cons.prems by simp
  ultimately show ?case
    by (auto simp: Let_def split: resultKind.splits option.splits)
qed

text \<open>
  Claim C9, as the code has it. In the batch that the build phase of \<^verbatim>\<open>Commit\<close>
  produces there is one boundary per check and operation; the boundaries do not decrease,
  and they increase strictly and are item indices when every operation has one of the
  kinds create, set and erase (an operation of another kind appends no item and records
  the index of the last item again, or \<open>-1\<close> when there is none). The last boundary is
  the index of the last item. For every item index of the batch \<^verbatim>\<open>toUserOpIndex\<close>
  returns the least index of a boundary that is not before the item, which is a valid,
  non-negative index; it returns \<open>-1\<close> only when every boundary is before the item. So
  for an answer no longer than the batch the reconciliation does not panic for want of
  an owning operation.
\<close>

theorem Commit_boundaries:
  assumes "commitChecks kp c (Checks txn) ([], [], []) = Inr b"
    and "commitOps d kp c (Ops txn) b s = Some (Inr (boundaries, ops, rks), s1)"
  shows "sorted boundaries
       \<and> (list_all (\<lambda>op. knownKind (op_What op)) (Ops txn) \<longrightarrow>
            sorted_wrt (<) boundaries \<and>
            list_all (\<lambda>x. 0 \<le> x \<and> x < int (length ops)) boundaries)
       \<and> length boundaries = length (Checks txn) + length (Ops txn)
       \<and> (boundaries \<noteq> [] \<longrightarrow> last boundaries = int (length ops) - 1)
       \<and> (boundaries = [] \<longrightarrow> ops = [])
       \<and> length rks = length ops
       \<and> (\<forall>i<length ops. 0 \<le> toUserOpIndex boundaries (int i)
             \<and> nat (toUserOpIndex boundaries (int i)) < length boundaries
             \<and> int i \<le> boundaries ! nat (toUserOpIndex boundaries (int i))
             \<and> (\<forall>j<nat (toUserOpIndex boundaries (int i)). boundaries ! j < int i))
       \<and> (\<forall>bs op. (\<forall>x\<in>set bs. x < op) \<longrightarrow> toUserOpIndex bs op = - 1)
       \<and> (\<forall>data result. length data \<le> length ops \<longrightarrow>
             reconcile boundaries rks 0 data result \<noteq> Panicked ''txn failed on non-existing op'')"
proof -
  have w0: "wellBuilt ([], [], [])" by (simp add: wellBuilt_def)
  have s0: "strictlyBuilt ([], [], [])" by (simp add: strictlyBuilt_def)
  from commitChecks_wellBuilt [OF assms(1) w0 s0]
  have wb: "wellBuilt b" and sb: "strictlyBuilt b" and lb: "length (fst b) = length (Checks txn)"
    by simp_all
  from commitOps_wellBuilt [OF assms(2) wb] lb
  have w: "wellBuilt (boundaries, ops, rks)"
    and l: "length boundaries = length (Checks txn) + length (Ops txn)" by simp_all
  from w have a: "sorted boundaries" "boundaries \<noteq> [] \<longrightarrow> last boundaries = int (length ops) - 1"
    "boundaries = [] \<longrightarrow> ops = []" "length rks = length ops"
    by (auto simp: wellBuilt_def split: if_splits)
  have st: "list_all (\<lambda>op. knownKind (op_What op)) (Ops txn) \<longrightarrow>
            sorted_wrt (<) boundaries \<and>
            list_all (\<lambda>x. 0 \<le> x \<and> x < int (length ops)) boundaries"
    using commitOps_strictlyBuilt [OF assms(2) sb] by (simp add: strictlyBuilt_def)
  have o: "\<forall>i<length ops. 0 \<le> toUserOpIndex boundaries (int i)
             \<and> nat (toUserOpIndex boundaries (int i)) < length boundaries
             \<and> int i \<le> boundaries ! nat (toUserOpIndex boundaries (int i))
             \<and> (\<forall>j<nat (toUserOpIndex boundaries (int i)). boundaries ! j < int i)"
    using wellBuilt_owner [OF w] by blast
  then have "\<forall>j<length ops. 0 \<le> toUserOpIndex boundaries (int j)" by blast
  then have p: "\<forall>data result. length data \<le> length ops \<longrightarrow>
             reconcile boundaries rks 0 data result \<noteq> Panicked ''txn failed on non-existing op''"
    using reconcile_owner_found [of "length ops" boundaries 0] by simp
  have q: "\<forall>bs op. (\<forall>x\<in>set bs. x < op) \<longrightarrow> toUserOpIndex bs op = - 1"
    by (simp add: toUserOpIndex_def toUserOpIndex_from_none)
  from a st l o p q show ?thesis by blast
qed

theorem Commit_boundaries_witness:
  "commitOps 2 slashKeys (zkClientAt [])
     [\<lparr>op_What = goffkv_Set, op_Key = ''/k'', op_Value = [1], op_Lease = False\<rparr>,
      \<lparr>op_What = goffkv_Create, op_Key = ''/z'', op_Value = [2], op_Lease = False\<rparr>,
      \<lparr>op_What = goffkv_Erase, op_Key = ''/k'', op_Value = [], op_Lease = False\<rparr>]
     ([0], [CheckVersionRequest ''/k'' 0], [rkAux])
     [(''/k'', \<lparr>zdata = [], zversion = 0, zephemeral = False\<rparr>),
      (''/k/a'', \<lparr>zdata = [], zversion = 0, zephemeral = False\<rparr>)] =
   Some (Inr ([0, 1, 2, 4],
              [CheckVersionRequest ''/k'' 0, SetDataRequest ''/k'' [1] (- 1),
               CreateRequest ''/z'' [2] defaultAcl 0, DeleteRequest ''/k/a'' (- 1),
               DeleteRequest ''/k'' (- 1)],
              [rkAux, rkSet, rkCreate, rkAux, rkAux]),
         [(''/k'', \<lparr>zdata = [], zversion = 0, zephemeral = False\<rparr>),
          (''/k/a'', \<lparr>zdata = [], zversion = 0, zephemeral = False\<rparr>)])
   \<and> sorted_wrt (<) [0, 1, 2, 4 :: int]
   \<and> toUserOpIndex [0, 1, 2, 4] 3 = 3
   \<and> toUserOpIndex [0, 1, 2, 4] 4 = 3
   \<and> toUserOpIndex [0, 1, 2, 4] 2 = 2
   \<and> 0 \<le> toUserOpIndex [0, 1, 2, 4] (int 3)
   \<and> [0, 1, 2, 4 :: int] ! 2 < int 3"
proof -
  let ?st = "[(''/k'', \<lparr>zdata = [], zversion = 0, zephemeral = False\<rparr>),
              (''/k/a'', \<lparr>zdata = [], zversion = 0, zephemeral = False\<rparr>)]"
  let ?txn = "\<lparr>Checks = [\<lparr>check_Key = ''/k'', check_Ver = 1\<rparr>],
               Ops = [\<lparr>op_What = goffkv_Set, op_Key = ''/k'', op_Value = [1], op_Lease = False\<rparr>,
                      \<lparr>op_What = goffkv_Create, op_Key = ''/z'', op_Value = [2], op_Lease = False\<rparr>,
                      \<lparr>op_What = goffkv_Erase, op_Key = ''/k'', op_Value = [], op_Lease = False\<rparr>]\<rparr>"
  let ?ops = "[CheckVersionRequest ''/k'' 0, SetDataRequest ''/k'' [1] (- 1),
               CreateRequest ''/z'' [2] defaultAcl 0, DeleteRequest ''/k/a'' (- 1),
               DeleteRequest ''/k'' (- 1)]"
  have h1: "commitChecks slashKeys (zkClientAt []) (Checks ?txn) ([], [], []) =
              Inr ([0], [CheckVersionRequest ''/k'' 0], [rkAux])"
    by code_simp
  have h2: "commitOps 2 slashKeys (zkClientAt []) (Ops ?txn)
              ([0], [CheckVersionRequest ''/k'' 0], [rkAux]) ?st =
            Some (Inr ([0, 1, 2, 4], ?ops, [rkAux, rkSet, rkCreate, rkAux, rkAux]), ?st)"
    by code_simp
  have e: "toUserOpIndex [0, 1, 2, 4] 3 = 3" "toUserOpIndex [0, 1, 2, 4] 4 = 3"
    "toUserOpIndex [0, 1, 2, 4] 2 = 2" by code_simp+
  have k: "list_all (\<lambda>op. knownKind (op_What op)) (Ops ?txn)" by simp
  note r = Commit_boundaries [where kp = slashKeys and txn = ?txn, OF h1 h2]
  from r k have s: "sorted_wrt (<) [0, 1, 2, 4 :: int]" by blast
  from r have q: "\<forall>i<length ?ops. 0 \<le> toUserOpIndex [0, 1, 2, 4] (int i)
      \<and> (\<forall>j<nat (toUserOpIndex [0, 1, 2, 4] (int i)). [0, 1, 2, 4 :: int] ! j < int i)" by blast
  have q3: "0 \<le> toUserOpIndex [0, 1, 2, 4] (int 3)"
    "\<forall>j<nat (toUserOpIndex [0, 1, 2, 4] (int 3)). [0, 1, 2, 4 :: int] ! j < int 3"
    using q [rule_format, of 3] by simp_all
  from q3(2) e(1) have "[0, 1, 2, 4 :: int] ! 2 < int 3" by simp
  with s h2 e q3(1) show ?thesis by simp
qed

text \<open>
  The claim as stated fails on an operation whose kind is none of the three constants:
  it appends no item, and its boundary repeats the one before.
\<close>

theorem Commit_boundaries_counterexample:
  "commitOps 0 slashKeys (zkClientAt [])
     [\<lparr>op_What = goffkv_Create, op_Key = ''/a'', op_Value = [1], op_Lease = False\<rparr>,
      \<lparr>op_What = otherKind 7, op_Key = ''/b'', op_Value = [], op_Lease = False\<rparr>]
     ([], [], []) [] =
   Some (Inr ([0, 0], [CreateRequest ''/a'' [1] defaultAcl 0], [rkCreate]), [])
   \<and> \<not> sorted_wrt (<) [0, 0 :: int]"
  by code_simp

subsection \<open>Expected versions on the wire\<close>

lemma isListing_checksFirst: "isListing cl \<Longrightarrow> checksFirst p v cl"
  by (cases cl) simp_all

lemma makeEraseQuery_traced:
  "makeEraseQuery d (tracedClient c) ops segments sl = Some ((ops1, err), sl1) \<Longrightarrow>
     \<exists>new. snd sl1 = snd sl @ new \<and> list_all isListing new"
  "eraseChildren d (tracedClient c) ops segments children sl = Some ((ops1, err), sl1) \<Longrightarrow>
     \<exists>new. snd sl1 = snd sl @ new \<and> list_all isListing new"
proof (induction d "tracedClient c" ops segments sl and d "tracedClient c" ops segments children sl
       arbitrary: ops1 err sl1 and ops1 err sl1 rule: makeEraseQuery_eraseChildren.induct)
  case (1 ops segments s)
  then show ?case by simp
next
  case (2 d ops segments sl)
  let ?p = "assemblePath (tracedClient c) segments"
  obtain names stat res s0 where
    l: "conn_Children (conn (tracedClient c)) ?p sl = ((names, stat, res), s0)"
    by (metis prod.exhaust)
  have s0: "snd s0 = snd sl @ [CallChildren ?p]"
    using l by (cases sl) (auto simp: conn_tracedClient traced_Children)
  show ?case
  proof (cases res)
    case (Some e)
    with 2(2) l s0 show ?thesis by auto
  next
    case None
    with 2(2) l obtain r where r: "eraseChildren d (tracedClient c) ops segments names s0 = Some r"
      by (auto split: option.splits)
    obtain opsr errr sr where r': "r = ((opsr, errr), sr)" by (metis prod.exhaust)
    from "2.hyps" [OF l [symmetric] refl refl None r [unfolded r']]
    obtain new where e: "snd sr = snd s0 @ new" "list_all isListing new" by blast
    from 2(2) l None r r' have "sl1 = sr" by (auto split: option.splits)
    with e s0 show ?thesis by simp
  qed
next
  case (3 d ops segments s)
  then show ?case by simp
next
  case (4 d ops segments child children sl)
  from 4(3) obtain m where m: "makeEraseQuery d (tracedClient c) ops (segments @ [child]) sl = Some m"
    by (auto split: option.splits)
  obtain opsm errm sm where m': "m = ((opsm, errm), sm)" by (metis prod.exhaust)
  from "4.hyps"(1) [OF m [unfolded m']] obtain new1 where
    e1: "snd sm = snd sl @ new1" "list_all isListing new1" by blast
  show ?case
  proof (cases "errm \<noteq> None \<and> errm \<noteq> Some ErrNoNode")
    case True
    with 4(3) m m' e1 show ?thesis by auto
  next
    case False
    with 4(3) m m' have r: "eraseChildren d (tracedClient c) opsm segments children sm = Some ((ops1, err), sl1)"
      by auto
    from "4.hyps"(2) [OF m [unfolded m'] refl refl False r]
    obtain new2 where "snd sl1 = snd sm @ new2" "list_all isListing new2" by blast
    with e1 show ?thesis by simp
  qed
qed

lemma Erase_loop_traced:
  "Erase_loop n d (tracedClient c) segments ver sl = Some (out, sl1) \<Longrightarrow>
   \<exists>new. snd sl1 = snd sl @ new \<and>
          list_all (checksFirst (assemblePath c segments) (ucast ver - 1)) new"
proof (induction n arbitrary: sl)
  case 0
  then show ?case by simp
next
  case (Suc n)
  let ?p = "assemblePath c segments"
  let ?v = "ucast ver - 1 :: int32"
  let ?P = "checksFirst ?p ?v"
  from Suc.prems obtain m where
    m: "makeEraseQuery d (tracedClient c) [CheckVersionRequest ?p ?v] segments sl = Some m"
    by (auto simp: assemblePath_tracedClient split: option.splits)
  obtain ops err sm where m': "m = ((ops, err), sm)" by (metis prod.exhaust)
  from makeEraseQuery_traced(1) [OF m [unfolded m']] obtain new1 where
    n1: "snd sm = snd sl @ new1" "list_all isListing new1" by blast
  then have p1: "list_all ?P new1" by (simp add: list_all_iff isListing_checksFirst)
  from makeEraseQuery_extends(1) [OF m [unfolded m']] obtain extra where
    ex: "ops = CheckVersionRequest ?p ?v # extra" by auto
  show ?case
  proof (cases err)
    case (Some e)
    with Suc.prems m m' have "sl1 = sm" by (simp add: assemblePath_tracedClient)
    with n1 p1 show ?thesis by blast
  next
    case None
    obtain data merr s2 where mu: "conn_Multi (conn (tracedClient c)) ops sm = ((data, merr), s2)"
      by (metis prod.exhaust)
    have s2: "snd s2 = snd sm @ [CallMulti ops]"
      using mu by (cases sm) (auto simp: conn_tracedClient traced_Multi)
    have p2: "list_all ?P (new1 @ [CallMulti ops])" using p1 ex by simp
    have l2: "snd s2 = snd sl @ (new1 @ [CallMulti ops])" using s2 n1 by simp
    have "sl1 = s2 \<or> Erase_loop n d (tracedClient c) segments ver s2 = Some (out, sl1)"
      using Suc.prems m m' None mu
      by (auto simp: assemblePath_tracedClient split: option.splits if_splits list.splits)
    then show ?thesis
    proof
      assume "sl1 = s2"
      with l2 p2 show ?thesis by blast
    next
      assume "Erase_loop n d (tracedClient c) segments ver s2 = Some (out, sl1)"
      from Suc.IH [OF this] obtain new3 where "snd sl1 = snd s2 @ new3" "list_all ?P new3" by blast
      with l2 p2 have "snd sl1 = snd sl @ (new1 @ [CallMulti ops] @ new3)"
        "list_all ?P (new1 @ [CallMulti ops] @ new3)" by simp_all
      then show ?thesis by blast
    qed
  qed
qed

lemma commitChecks_items:
  "commitChecks kp c checks b = Inr b' \<Longrightarrow>
   fst (snd b') = fst (snd b) @
     map (\<lambda>ch. CheckVersionRequest (assemblePath c (fst (DisassembleKey kp (check_Key ch))))
                 (ucast (check_Ver ch) - 1)) checks"
proof (induction checks arbitrary: b)
  case Nil
  then show ?case by simp
next
  case (Cons x xs)
  obtain boundaries ops rks where b: "b = (boundaries, ops, rks)" using prod_cases3 by blast
  obtain segs e where dk: "DisassembleKey kp (check_Key x) = (segs, e)" by (metis prod.exhaust)
  with Cons.prems(1) b have e: "e = None" by (cases e) auto
  let ?ops1 = "ops @ [CheckVersionRequest (assemblePath c segs) (ucast (check_Ver x) - 1)]"
  let ?b1 = "(boundaries @ [int (length ?ops1) - 1], ?ops1, rks @ [rkAux])"
  from Cons.prems(1) b dk e have r: "commitChecks kp c xs ?b1 = Inr b'"
    by (simp add: Let_def)
  from Cons.IH [OF r] b dk show ?case by simp
qed

lemma commitChecks_congruent:
  "map check_Key checks = map check_Key checks' \<Longrightarrow>
   map (\<lambda>ch. ucast (check_Ver ch) :: int32) checks = map (\<lambda>ch. ucast (check_Ver ch)) checks' \<Longrightarrow>
   commitChecks kp c checks b = commitChecks kp c checks' b"
proof (induction checks arbitrary: checks' b)
  case Nil
  then show ?case by simp
next
  case (Cons x xs)
  from Cons.prems(1) obtain y ys where c': "checks' = y # ys" by (cases checks') auto
  obtain boundaries ops rks where b: "b = (boundaries, ops, rks)" using prod_cases3 by blast
  from Cons.prems c' have k: "check_Key x = check_Key y"
    "(ucast (check_Ver x) :: int32) = ucast (check_Ver y)"
    "map check_Key xs = map check_Key ys"
    "map (\<lambda>ch. ucast (check_Ver ch) :: int32) xs = map (\<lambda>ch. ucast (check_Ver ch)) ys"
    by simp_all
  show ?case unfolding c' b
    by (simp add: k(1,2) Cons.IH [OF k(3,4)] split: prod.splits option.splits)
qed

lemma Commit_congruent:
  "map check_Key (Checks txn) = map check_Key (Checks txn') \<Longrightarrow>
   map (\<lambda>ch. ucast (check_Ver ch) :: int32) (Checks txn) =
     map (\<lambda>ch. ucast (check_Ver ch)) (Checks txn') \<Longrightarrow>
   Ops txn = Ops txn' \<Longrightarrow>
   Commit n d kp c txn s = Commit n d kp c txn' s"
proof (induction n arbitrary: s)
  case 0
  then show ?case by simp
next
  case (Suc n)
  have "commitChecks kp c (Checks txn) ([], [], []) = commitChecks kp c (Checks txn') ([], [], [])"
    using Suc.prems(1,2) by (rule commitChecks_congruent)
  with Suc.prems(3) Suc.IH [OF Suc.prems] show ?case
    by (simp split: sum.splits option.splits prod.splits scan.splits)
qed


lemma isListing_leadsWith: "isListing cl \<Longrightarrow> leadsWith items cl"
  by (cases cl) simp_all

lemma commitChecks_tracedClient:
  "commitChecks kp (tracedClient c) checks b = commitChecks kp c checks b"
proof (induction checks arbitrary: b)
  case Nil
  then show ?case by simp
next
  case (Cons x xs)
  obtain boundaries ops rks where b: "b = (boundaries, ops, rks)" using prod_cases3 by blast
  show ?case unfolding b
    by (simp add: Cons.IH assemblePath_tracedClient split: prod.splits option.splits)
qed

lemma commitChecks_checkItems:
  "commitChecks kp c checks ([], [], []) = Inr b \<Longrightarrow> fst (snd b) = checkItems kp c checks"
  using commitChecks_items [of kp c checks "([], [], [])" b] by (simp add: checkItems_def)

lemma commitOps_extends:
  "commitOps d kp c uops b s = Some (Inr b', s') \<Longrightarrow> \<exists>extra. fst (snd b') = fst (snd b) @ extra"
proof (induction uops arbitrary: b s)
  case Nil
  then show ?case by simp
next
  case (Cons x xs)
  obtain boundaries ops rks where b: "b = (boundaries, ops, rks)" using prod_cases3 by blast
  from commitOps_step [OF Cons.prems(1) [unfolded b]] obtain extra blk s1 where
    r: "commitOps d kp c xs
          (boundaries @ [int (length (ops @ extra)) - 1], ops @ extra, rks @ blk) s1
          = Some (Inr b', s')" by blast
  from Cons.IH [OF r] b show ?case by auto
qed

lemma commitOps_traced:
  "commitOps d kp (tracedClient c) uops b sl = Some (r, sl1) \<Longrightarrow>
   \<exists>new. snd sl1 = snd sl @ new \<and> list_all isListing new"
proof (induction uops arbitrary: b sl)
  case Nil
  then show ?case by simp
next
  case (Cons x xs)
  let ?c = "tracedClient c"
  obtain boundaries ops rks where b: "b = (boundaries, ops, rks)" using prod_cases3 by blast
  obtain segs e where dk: "DisassembleKey kp (op_Key x) = (segs, e)" by (metis prod.exhaust)
  show ?case
  proof (cases e)
    case (Some err)
    with Cons.prems b dk show ?thesis by simp
  next
    case None
    show ?thesis
    proof (cases "op_What x")
      case goffkv_Create
      with Cons.prems b dk None obtain b1 where "commitOps d kp ?c xs b1 sl = Some (r, sl1)"
        by (auto simp: Let_def)
      from Cons.IH [OF this] show ?thesis .
    next
      case goffkv_Set
      with Cons.prems b dk None obtain b1 where "commitOps d kp ?c xs b1 sl = Some (r, sl1)"
        by (auto simp: Let_def)
      from Cons.IH [OF this] show ?thesis .
    next
      case (otherKind k)
      with Cons.prems b dk None obtain b1 where "commitOps d kp ?c xs b1 sl = Some (r, sl1)"
        by auto
      from Cons.IH [OF this] show ?thesis .
    next
      case goffkv_Erase
      with Cons.prems b dk None obtain m where m: "makeEraseQuery d ?c ops segs sl = Some m"
        by (auto split: option.splits)
      obtain opsm errm sm where m': "m = ((opsm, errm), sm)" by (metis prod.exhaust)
      from makeEraseQuery_traced(1) [OF m [unfolded m']] obtain new1 where
        n1: "snd sm = snd sl @ new1" "list_all isListing new1" by blast
      have "sl1 = sm \<or> (\<exists>b1. commitOps d kp ?c xs b1 sm = Some (r, sl1))"
        using Cons.prems b dk None goffkv_Erase m m'
        by (cases errm) (auto simp: Let_def split: if_splits)
      then show ?thesis
      proof
        assume "sl1 = sm"
        with n1 show ?thesis by blast
      next
        assume "\<exists>b1. commitOps d kp ?c xs b1 sm = Some (r, sl1)"
        then obtain b1 where "commitOps d kp ?c xs b1 sm = Some (r, sl1)" ..
        from Cons.IH [OF this] obtain new2 where "snd sl1 = snd sm @ new2" "list_all isListing new2"
          by blast
        with n1 have "snd sl1 = snd sl @ (new1 @ new2)" "list_all isListing (new1 @ new2)"
          by simp_all
        then show ?thesis by blast
      qed
    qed
  qed
qed

lemma Commit_unfold:
  assumes "commitChecks kp c (Checks txn) ([], [], []) = Inr b"
    and "commitOps d kp c (Ops txn) b s = Some (Inr (boundaries, ops, rks), s1)"
    and "conn_Multi (conn c) ops s1 = ((data, err), s2)"
  shows "Commit (Suc n) d kp c txn s =
           (case reconcile boundaries rks 0 data [] of
              Retry \<Rightarrow> Commit n d kp c txn s2
            | Failed userIndex \<Rightarrow> Some (Return (None, Some (TxnError userIndex)), s2)
            | Panicked msg \<Rightarrow> Some (Panic msg, s2)
            | Finished result \<Rightarrow>
                (case err of
                   Some e \<Rightarrow> Some (Return (None, Some (convertError e)), s2)
                 | None \<Rightarrow> Some (Return (Some result, None), s2)))"
  using assms by simp

lemma Commit_traced:
  "Commit n d kp (tracedClient c) txn sl = Some (out, sl1) \<Longrightarrow>
   \<exists>new. snd sl1 = snd sl @ new \<and> list_all (leadsWith (checkItems kp c (Checks txn))) new"
proof (induction n arbitrary: sl)
  case 0
  then show ?case by simp
next
  case (Suc n)
  let ?c = "tracedClient c"
  let ?P = "leadsWith (checkItems kp c (Checks txn))"
  show ?case
  proof (cases "commitChecks kp c (Checks txn) ([], [], [])")
    case (Inl err)
    with Suc.prems have "sl1 = sl" by (simp add: commitChecks_tracedClient)
    then show ?thesis by simp
  next
    case (Inr b)
    then have cb: "commitChecks kp ?c (Checks txn) ([], [], []) = Inr b"
      by (simp add: commitChecks_tracedClient)
    from Suc.prems cb obtain r sm where co: "commitOps d kp ?c (Ops txn) b sl = Some (r, sm)"
      by (cases "commitOps d kp ?c (Ops txn) b sl") auto
    from commitOps_traced [OF co] obtain new1 where
      n1: "snd sm = snd sl @ new1" "list_all isListing new1" by blast
    then have p1: "list_all ?P new1" by (simp add: list_all_iff isListing_leadsWith)
    show ?thesis
    proof (cases r)
      case (Inl err)
      with Suc.prems cb co have "sl1 = sm" by simp
      with n1 p1 show ?thesis by blast
    next
      case (Inr b')
      obtain boundaries ops rks where b': "b' = (boundaries, ops, rks)" using prod_cases3 by blast
      from commitOps_extends [OF co [unfolded Inr]] commitChecks_checkItems [OF \<open>commitChecks kp c (Checks txn) ([], [], []) = Inr b\<close>] b'
      obtain extra where ops: "ops = checkItems kp c (Checks txn) @ extra" by auto
      obtain data merr s2 where mu: "conn_Multi (conn ?c) ops sm = ((data, merr), s2)"
        by (metis prod.exhaust)
      have s2: "snd s2 = snd sm @ [CallMulti ops]"
        using mu by (cases sm) (auto simp: conn_tracedClient traced_Multi)
      have p2: "list_all ?P (new1 @ [CallMulti ops])" using p1 ops by simp
      have l2: "snd s2 = snd sl @ (new1 @ [CallMulti ops])" using s2 n1 by simp
      from Commit_unfold [OF cb co [unfolded Inr b'] mu, of n] Suc.prems
      have "sl1 = s2 \<or> Commit n d kp ?c txn s2 = Some (out, sl1)"
        by (auto split: scan.splits option.splits)
      then show ?thesis
      proof
        assume "sl1 = s2"
        with l2 p2 show ?thesis by blast
      next
        assume "Commit n d kp ?c txn s2 = Some (out, sl1)"
        from Suc.IH [OF this] obtain new3 where "snd sl1 = snd s2 @ new3" "list_all ?P new3"
          by blast
        with l2 p2 have "snd sl1 = snd sl @ (new1 @ [CallMulti ops] @ new3)"
          "list_all ?P (new1 @ [CallMulti ops] @ new3)" by simp_all
        then show ?thesis by blast
      qed
    qed
  qed
qed

lemma Commit_sends:
  assumes "commitChecks kp c (Checks txn) ([], [], []) = Inr b"
    and "commitOps d kp (tracedClient c) (Ops txn) b (s, log) =
           Some (Inr (boundaries, ops, rks), (s1, log1))"
  shows "take (length (Checks txn)) ops = checkItems kp c (Checks txn)"
    and "reconcile boundaries rks 0 (fst (fst (conn_Multi (conn c) ops s1))) [] \<noteq> Retry \<Longrightarrow>
         \<exists>out. Commit (Suc n) d kp (tracedClient c) txn (s, log) =
                  Some (out, (snd (conn_Multi (conn c) ops s1), log1 @ [CallMulti ops]))"
    and "reconcile boundaries rks 0 (fst (fst (conn_Multi (conn c) ops s1))) [] = Retry \<Longrightarrow>
         Commit (Suc n) d kp (tracedClient c) txn (s, log) =
           Commit n d kp (tracedClient c) txn
             (snd (conn_Multi (conn c) ops s1), log1 @ [CallMulti ops])"
proof -
  let ?c = "tracedClient c"
  from commitOps_extends [OF assms(2)] commitChecks_checkItems [OF assms(1)]
  obtain extra where "ops = checkItems kp c (Checks txn) @ extra" by auto
  then show "take (length (Checks txn)) ops = checkItems kp c (Checks txn)"
    by (simp add: checkItems_def)
  have cb: "commitChecks kp ?c (Checks txn) ([], [], []) = Inr b"
    using assms(1) by (simp add: commitChecks_tracedClient)
  obtain data merr s2 where m: "conn_Multi (conn c) ops s1 = ((data, merr), s2)"
    by (metis prod.exhaust)
  then have mu: "conn_Multi (conn ?c) ops (s1, log1) = ((data, merr), (s2, log1 @ [CallMulti ops]))"
    by (simp add: conn_tracedClient traced_Multi)
  note u = Commit_unfold [OF cb assms(2) mu, of n]
  show "\<exists>out. Commit (Suc n) d kp ?c txn (s, log) =
                  Some (out, (snd (conn_Multi (conn c) ops s1), log1 @ [CallMulti ops]))"
    if "reconcile boundaries rks 0 (fst (fst (conn_Multi (conn c) ops s1))) [] \<noteq> Retry"
    using that u m by (auto split: scan.splits option.splits)
  show "Commit (Suc n) d kp ?c txn (s, log) =
           Commit n d kp ?c txn (snd (conn_Multi (conn c) ops s1), log1 @ [CallMulti ops])"
    if "reconcile boundaries rks 0 (fst (fst (conn_Multi (conn c) ops s1))) [] = Retry"
    using that u m by simp
qed

lemma Erase_sends:
  assumes "kp key = Inr segments"
    and "makeEraseQuery d (tracedClient c)
           [CheckVersionRequest (assemblePath c segments) (ucast ver - 1)] segments (s, log) =
         Some ((ops, None), (s1, log1))"
  shows "\<exists>extra. ops = CheckVersionRequest (assemblePath c segments) (ucast ver - 1) # extra"
    and "snd (fst (conn_Multi (conn c) ops s1)) = None \<or>
         snd (fst (conn_Multi (conn c) ops s1)) = Some ErrBadVersion \<Longrightarrow>
         Erase (Suc n) d kp (tracedClient c) key ver (s, log) =
           Some (Return None, (snd (conn_Multi (conn c) ops s1), log1 @ [CallMulti ops]))"
proof -
  let ?c = "tracedClient c"
  from makeEraseQuery_extends(1) [OF assms(2)]
  show "\<exists>extra. ops = CheckVersionRequest (assemblePath c segments) (ucast ver - 1) # extra"
    by auto
  obtain data merr s2 where m: "conn_Multi (conn c) ops s1 = ((data, merr), s2)"
    by (metis prod.exhaust)
  then have mu: "conn_Multi (conn ?c) ops (s1, log1) = ((data, merr), (s2, log1 @ [CallMulti ops]))"
    by (simp add: conn_tracedClient traced_Multi)
  show "Erase (Suc n) d kp ?c key ver (s, log) =
           Some (Return None, (snd (conn_Multi (conn c) ops s1), log1 @ [CallMulti ops]))"
    if "snd (fst (conn_Multi (conn c) ops s1)) = None \<or>
         snd (fst (conn_Multi (conn c) ops s1)) = Some ErrBadVersion"
    using that assms m mu
    by (auto simp: Erase_def DisassembleKey_Inr assemblePath_tracedClient)
qed

text \<open>
  Claim C10. The expected versions that reach the service are 32-bit values. For a key
  that decomposes: \<^verbatim>\<open>Cas\<close> with a non-zero version makes one overwrite call with
  expected version \<open>int32(ver - 1)\<close>. When the expansion of an erase succeeds,
  \<^verbatim>\<open>Erase\<close> submits the batch, which starts with the check of the target for version
  \<open>int32(ver) - 1\<close>, and so does every batch of a run that returns. When the build
  phase of \<^verbatim>\<open>Commit\<close> succeeds, \<^verbatim>\<open>Commit\<close> submits the batch, whose first items
  are the check items of the transaction, one per check for version \<open>int32(ver) - 1\<close>,
  and so does every batch of a run that returns. The two forms \<open>int32(ver - 1)\<close> and
  \<open>int32(ver) - 1\<close> agree. Two user versions have the same 32-bit form exactly when
  they are congruent modulo \<open>2^32\<close>, and then \<^verbatim>\<open>Erase\<close>, \<^verbatim>\<open>Cas\<close> (for non-zero
  versions) and \<^verbatim>\<open>Commit\<close> behave identically on them for every service.
  \<^verbatim>\<open>Cas\<close> with the sentinel \<open>1 << 62\<close> sends expected version \<open>-1\<close>, the value the
  client itself uses for an unconditional overwrite.
\<close>

theorem expected_versions_truncated:
  assumes "kp key = Inr segments"
  shows "(ver \<noteq> 0 \<longrightarrow>
           snd (snd (Cas kp (tracedClient c) key val ver (s, log))) =
             log @ [CallSet (assemblePath c segments) val (ucast (ver - 1))])
       \<and> (\<forall>out sl1. Erase n d kp (tracedClient c) key ver (s, log) = Some (out, sl1) \<longrightarrow>
             (\<exists>new. snd sl1 = log @ new \<and>
                list_all (checksFirst (assemblePath c segments) (ucast ver - 1)) new))
       \<and> (\<forall>b b'. commitChecks kp c [\<lparr>check_Key = key, check_Ver = ver\<rparr>] b = Inr b' \<longrightarrow>
             fst (snd b') =
               fst (snd b) @ [CheckVersionRequest (assemblePath c segments) (ucast ver - 1)])
       \<and> (ucast (ver - 1) :: int32) = ucast ver - 1
       \<and> ((ucast ver :: int32) = ucast ver' \<longleftrightarrow> unat ver mod 2 ^ 32 = unat ver' mod 2 ^ 32)
       \<and> ((ucast ver :: int32) = ucast ver' \<longrightarrow>
             Erase n d kp c key ver s = Erase n d kp c key ver' s
           \<and> (ver \<noteq> 0 \<and> ver' \<noteq> 0 \<longrightarrow> Cas kp c key val ver s = Cas kp c key val ver' s))
       \<and> (\<forall>txn txn'.
             map check_Key (Checks txn) = map check_Key (Checks txn') \<and>
             map (\<lambda>ch. ucast (check_Ver ch) :: int32) (Checks txn) =
               map (\<lambda>ch. ucast (check_Ver ch)) (Checks txn') \<and>
             Ops txn = Ops txn' \<longrightarrow>
             Commit n d kp c txn s = Commit n d kp c txn' s)
       \<and> snd (snd (Cas kp (tracedClient c) key val (push_bit 62 1) (s, log))) =
             log @ [CallSet (assemblePath c segments) val (- 1)]
       \<and> (\<forall>ops s1 log1.
             makeEraseQuery d (tracedClient c)
               [CheckVersionRequest (assemblePath c segments) (ucast ver - 1)] segments (s, log) =
             Some ((ops, None), (s1, log1)) \<longrightarrow>
             (\<exists>extra. ops = CheckVersionRequest (assemblePath c segments) (ucast ver - 1) # extra) \<and>
             (snd (fst (conn_Multi (conn c) ops s1)) = None \<or>
              snd (fst (conn_Multi (conn c) ops s1)) = Some ErrBadVersion \<longrightarrow>
              Erase (Suc n) d kp (tracedClient c) key ver (s, log) =
                Some (Return None, (snd (conn_Multi (conn c) ops s1), log1 @ [CallMulti ops]))))
       \<and> (\<forall>txn b boundaries ops rks s1 log1.
             commitChecks kp c (Checks txn) ([], [], []) = Inr b \<and>
             commitOps d kp (tracedClient c) (Ops txn) b (s, log) =
               Some (Inr (boundaries, ops, rks), (s1, log1)) \<longrightarrow>
             take (length (Checks txn)) ops = checkItems kp c (Checks txn) \<and>
             (reconcile boundaries rks 0 (fst (fst (conn_Multi (conn c) ops s1))) [] \<noteq> Retry \<longrightarrow>
                (\<exists>out. Commit (Suc n) d kp (tracedClient c) txn (s, log) =
                   Some (out, (snd (conn_Multi (conn c) ops s1), log1 @ [CallMulti ops])))) \<and>
             (reconcile boundaries rks 0 (fst (fst (conn_Multi (conn c) ops s1))) [] = Retry \<longrightarrow>
                Commit (Suc n) d kp (tracedClient c) txn (s, log) =
                  Commit n d kp (tracedClient c) txn
                    (snd (conn_Multi (conn c) ops s1), log1 @ [CallMulti ops])))
       \<and> (\<forall>txn out sl1.
             Commit n d kp (tracedClient c) txn (s, log) = Some (out, sl1) \<longrightarrow>
             (\<exists>new. snd sl1 = log @ new \<and>
                list_all (leadsWith (checkItems kp c (Checks txn))) new))
       \<and> checkItems kp c [\<lparr>check_Key = key, check_Ver = ver\<rparr>] =
             [CheckVersionRequest (assemblePath c segments) (ucast ver - 1)]"
proof -
  have cas: "snd (snd (Cas kp (tracedClient c) key val v (s, log))) =
               log @ [CallSet (assemblePath c segments) val (ucast (v - 1))]" if "v \<noteq> 0" for v
    using assms that
    by (auto simp: Cas_def DisassembleKey_Inr assemblePath_tracedClient conn_tracedClient
          traced_Set split: prod.splits option.splits)
  have a: "ver \<noteq> 0 \<longrightarrow>
           snd (snd (Cas kp (tracedClient c) key val ver (s, log))) =
             log @ [CallSet (assemblePath c segments) val (ucast (ver - 1))]"
    using cas by blast
  have b: "\<forall>out sl1. Erase n d kp (tracedClient c) key ver (s, log) = Some (out, sl1) \<longrightarrow>
             (\<exists>new. snd sl1 = log @ new \<and>
                list_all (checksFirst (assemblePath c segments) (ucast ver - 1)) new)"
    using assms Erase_loop_traced [of n d c segments ver "(s, log)"]
    by (simp add: Erase_def DisassembleKey_Inr)
  have cc: "\<forall>b b'. commitChecks kp c [\<lparr>check_Key = key, check_Ver = ver\<rparr>] b = Inr b' \<longrightarrow>
             fst (snd b') =
               fst (snd b) @ [CheckVersionRequest (assemblePath c segments) (ucast ver - 1)]"
  proof (intro allI impI)
    fix b b'
    assume "commitChecks kp c [\<lparr>check_Key = key, check_Ver = ver\<rparr>] b = Inr b'"
    from commitChecks_items [OF this] assms show "fst (snd b') =
               fst (snd b) @ [CheckVersionRequest (assemblePath c segments) (ucast ver - 1)]"
      by (simp add: DisassembleKey_Inr)
  qed
  have e: "(ucast ver :: int32) = ucast ver' \<longrightarrow>
             Erase n d kp c key ver s = Erase n d kp c key ver' s
           \<and> (ver \<noteq> 0 \<and> ver' \<noteq> 0 \<longrightarrow> Cas kp c key val ver s = Cas kp c key val ver' s)"
  proof
    assume eq: "(ucast ver :: int32) = ucast ver'"
    have "Erase_loop m d c segments ver t = Erase_loop m d c segments ver' t" for m t
      by (induction m arbitrary: t)
         (simp_all add: eq split: option.split prod.split list.split)
    then have 1: "Erase n d kp c key ver s = Erase n d kp c key ver' s"
      using assms by (simp add: Erase_def DisassembleKey_Inr)
    have "(ucast (ver - 1) :: int32) = ucast (ver' - 1)" by (simp add: ucast_pred eq)
    then have 2: "ver \<noteq> 0 \<and> ver' \<noteq> 0 \<longrightarrow> Cas kp c key val ver s = Cas kp c key val ver' s"
      by (simp add: Cas_def)
    from 1 2 show "Erase n d kp c key ver s = Erase n d kp c key ver' s
           \<and> (ver \<noteq> 0 \<and> ver' \<noteq> 0 \<longrightarrow> Cas kp c key val ver s = Cas kp c key val ver' s)" ..
  qed
  have f: "\<forall>txn txn'.
             map check_Key (Checks txn) = map check_Key (Checks txn') \<and>
             map (\<lambda>ch. ucast (check_Ver ch) :: int32) (Checks txn) =
               map (\<lambda>ch. ucast (check_Ver ch)) (Checks txn') \<and>
             Ops txn = Ops txn' \<longrightarrow>
             Commit n d kp c txn s = Commit n d kp c txn' s"
  proof (intro allI impI)
    fix txn txn' :: Txn
    assume h: "map check_Key (Checks txn) = map check_Key (Checks txn') \<and>
             map (\<lambda>ch. ucast (check_Ver ch) :: int32) (Checks txn) =
               map (\<lambda>ch. ucast (check_Ver ch)) (Checks txn') \<and>
             Ops txn = Ops txn'"
    show "Commit n d kp c txn s = Commit n d kp c txn' s"
      by (rule Commit_congruent) (use h in simp_all)
  qed
  have nz: "(push_bit 62 1 :: Version) \<noteq> 0" by simp
  have "(ucast (push_bit 62 1 - 1 :: Version) :: int32) = - 1" by simp
  with cas [OF nz] have g: "snd (snd (Cas kp (tracedClient c) key val (push_bit 62 1) (s, log))) =
             log @ [CallSet (assemblePath c segments) val (- 1)]"
    by simp
  have h: "\<forall>ops s1 log1.
             makeEraseQuery d (tracedClient c)
               [CheckVersionRequest (assemblePath c segments) (ucast ver - 1)] segments (s, log) =
             Some ((ops, None), (s1, log1)) \<longrightarrow>
             (\<exists>extra. ops = CheckVersionRequest (assemblePath c segments) (ucast ver - 1) # extra) \<and>
             (snd (fst (conn_Multi (conn c) ops s1)) = None \<or>
              snd (fst (conn_Multi (conn c) ops s1)) = Some ErrBadVersion \<longrightarrow>
              Erase (Suc n) d kp (tracedClient c) key ver (s, log) =
                Some (Return None, (snd (conn_Multi (conn c) ops s1), log1 @ [CallMulti ops])))"
  proof (intro allI impI)
    fix ops s1 log1
    assume m: "makeEraseQuery d (tracedClient c)
               [CheckVersionRequest (assemblePath c segments) (ucast ver - 1)] segments (s, log) =
             Some ((ops, None), (s1, log1))"
    note r1 = Erase_sends(1) [where kp = kp and key = key, OF assms m]
      and r2 = Erase_sends(2) [where kp = kp and key = key and n = n, OF assms m]
    from r1 r2 show "(\<exists>extra. ops = CheckVersionRequest (assemblePath c segments) (ucast ver - 1) # extra) \<and>
             (snd (fst (conn_Multi (conn c) ops s1)) = None \<or>
              snd (fst (conn_Multi (conn c) ops s1)) = Some ErrBadVersion \<longrightarrow>
              Erase (Suc n) d kp (tracedClient c) key ver (s, log) =
                Some (Return None, (snd (conn_Multi (conn c) ops s1), log1 @ [CallMulti ops])))"
      by (intro conjI impI)
  qed
  have i: "\<forall>txn b boundaries ops rks s1 log1.
             commitChecks kp c (Checks txn) ([], [], []) = Inr b \<and>
             commitOps d kp (tracedClient c) (Ops txn) b (s, log) =
               Some (Inr (boundaries, ops, rks), (s1, log1)) \<longrightarrow>
             take (length (Checks txn)) ops = checkItems kp c (Checks txn) \<and>
             (reconcile boundaries rks 0 (fst (fst (conn_Multi (conn c) ops s1))) [] \<noteq> Retry \<longrightarrow>
                (\<exists>out. Commit (Suc n) d kp (tracedClient c) txn (s, log) =
                   Some (out, (snd (conn_Multi (conn c) ops s1), log1 @ [CallMulti ops])))) \<and>
             (reconcile boundaries rks 0 (fst (fst (conn_Multi (conn c) ops s1))) [] = Retry \<longrightarrow>
                Commit (Suc n) d kp (tracedClient c) txn (s, log) =
                  Commit n d kp (tracedClient c) txn
                    (snd (conn_Multi (conn c) ops s1), log1 @ [CallMulti ops]))"
  proof (intro allI impI, elim conjE)
    fix txn :: Txn and b boundaries ops rks s1 log1
    assume h1: "commitChecks kp c (Checks txn) ([], [], []) = Inr b"
      and h2: "commitOps d kp (tracedClient c) (Ops txn) b (s, log) =
               Some (Inr (boundaries, ops, rks), (s1, log1))"
    note r1 = Commit_sends(1) [OF h1 h2]
      and r2 = Commit_sends(2) [where n = n, OF h1 h2]
      and r3 = Commit_sends(3) [where n = n, OF h1 h2]
    from r1 r2 r3 show "take (length (Checks txn)) ops = checkItems kp c (Checks txn) \<and>
             (reconcile boundaries rks 0 (fst (fst (conn_Multi (conn c) ops s1))) [] \<noteq> Retry \<longrightarrow>
                (\<exists>out. Commit (Suc n) d kp (tracedClient c) txn (s, log) =
                   Some (out, (snd (conn_Multi (conn c) ops s1), log1 @ [CallMulti ops])))) \<and>
             (reconcile boundaries rks 0 (fst (fst (conn_Multi (conn c) ops s1))) [] = Retry \<longrightarrow>
                Commit (Suc n) d kp (tracedClient c) txn (s, log) =
                  Commit n d kp (tracedClient c) txn
                    (snd (conn_Multi (conn c) ops s1), log1 @ [CallMulti ops]))"
      by (intro conjI impI)
  qed
  have j: "\<forall>txn out sl1.
             Commit n d kp (tracedClient c) txn (s, log) = Some (out, sl1) \<longrightarrow>
             (\<exists>new. snd sl1 = log @ new \<and>
                list_all (leadsWith (checkItems kp c (Checks txn))) new)"
    using Commit_traced [of n d kp c _ "(s, log)"] by simp
  have k: "checkItems kp c [\<lparr>check_Key = key, check_Ver = ver\<rparr>] =
             [CheckVersionRequest (assemblePath c segments) (ucast ver - 1)]"
    using assms by (simp add: checkItems_def DisassembleKey_Inr)
  note up = ucast_pred [of ver] and uc = ucast_congruent [of ver ver']
  show ?thesis
    by (intro conjI) (fact a b cc up uc e f g h i j k)+
qed

theorem expected_versions_truncated_witness:
  "Cas slashKeys (zkClientAt []) ''/a'' [2] 4294967297
     [(''/a'', \<lparr>zdata = [1], zversion = 0, zephemeral = False\<rparr>)] =
     ((2, None), [(''/a'', \<lparr>zdata = [2], zversion = 1, zephemeral = False\<rparr>)])
   \<and> Erase 1 1 slashKeys (zkClientAt []) ''/a'' 4294967297
       [(''/a'', \<lparr>zdata = [1], zversion = 0, zephemeral = False\<rparr>)] = Some (Return None, [])
   \<and> snd (snd (Cas slashKeys (tracedClient (zkClientAt [])) ''/a'' [2] 4611686018427387904
                 ([(''/a'', \<lparr>zdata = [1], zversion = 7, zephemeral = False\<rparr>)], []))) =
       [CallSet ''/a'' [2] (- 1)]
   \<and> snd (snd (the (Commit 1 1 slashKeys (tracedClient (zkClientAt []))
                 \<lparr>Checks = [\<lparr>check_Key = ''/a'', check_Ver = 4294967297\<rparr>], Ops = []\<rparr>
                 ([(''/a'', \<lparr>zdata = [1], zversion = 0, zephemeral = False\<rparr>)], [])))) =
       [CallMulti [CheckVersionRequest ''/a'' 0]]"
proof -
  let ?st = "[(''/a'', \<lparr>zdata = [1], zversion = 0, zephemeral = False\<rparr>)]"
  let ?st7 = "[(''/a'', \<lparr>zdata = [1], zversion = 7, zephemeral = False\<rparr>)]"
  let ?c = "zkClientAt []"
  have p: "assemblePath ?c [''a''] = ''/a''" by (simp add: assemblePath_def zkClientAt_def)
  have u: "(ucast (1 :: Version) :: int32) = ucast (4294967297 :: Version)" by simp
  note r = expected_versions_truncated [where kp = slashKeys and key = "''/a''" and c = ?c
      and ver = 1 and ver' = 4294967297 and val = "[2]" and s = ?st and n = 1 and d = 1,
      OF slashKeys_a]
  from r u have 1: "Cas slashKeys ?c ''/a'' [2] 1 ?st = Cas slashKeys ?c ''/a'' [2] 4294967297 ?st"
    and 2: "Erase 1 1 slashKeys ?c ''/a'' 1 ?st = Erase 1 1 slashKeys ?c ''/a'' 4294967297 ?st"
    by simp_all
  have 3: "Cas slashKeys ?c ''/a'' [2] 1 ?st =
            ((2, None), [(''/a'', \<lparr>zdata = [2], zversion = 1, zephemeral = False\<rparr>)])"
    by code_simp
  have 4: "Erase 1 1 slashKeys ?c ''/a'' 1 ?st = Some (Return None, [])"
    by code_simp
  from expected_versions_truncated [where kp = slashKeys and key = "''/a''" and c = ?c
      and val = "[2]" and s = ?st7 and log = "[]", OF slashKeys_a]
  have 5: "snd (snd (Cas slashKeys (tracedClient ?c) ''/a'' [2] (push_bit 62 1) (?st7, []))) =
            [CallSet ''/a'' [2] (- 1)]"
    by (simp add: p)
  let ?txn = "\<lparr>Checks = [\<lparr>check_Key = ''/a'', check_Ver = 4294967297\<rparr>], Ops = []\<rparr>"
  let ?b = "([0 :: int], [CheckVersionRequest ''/a'' 0], [rkAux])"
  have h1: "commitChecks slashKeys ?c (Checks ?txn) ([], [], []) = Inr ?b"
    by code_simp
  have h2: "commitOps 1 slashKeys (tracedClient ?c) (Ops ?txn) ?b (?st, []) =
              Some (Inr ?b, (?st, []))"
    by simp
  have h3: "reconcile [0] [rkAux] 0
              (fst (fst (conn_Multi (conn ?c) [CheckVersionRequest ''/a'' 0] ?st))) [] \<noteq> Retry"
    by code_simp
  have h4: "snd (conn_Multi (conn ?c) [CheckVersionRequest ''/a'' 0] ?st) = ?st"
    by code_simp
  note big = expected_versions_truncated [where kp = slashKeys and key = "''/a''" and c = ?c
      and s = ?st and log = "[]" and n = 0 and d = 1 and ver = 1 and ver' = 1 and val = "[]",
      OF slashKeys_a]
  note sends = big [THEN conjunct2, THEN conjunct2, THEN conjunct2, THEN conjunct2,
      THEN conjunct2, THEN conjunct2, THEN conjunct2, THEN conjunct2, THEN conjunct2,
      THEN conjunct1, rule_format, OF conjI [OF h1 h2]]
  from sends [THEN conjunct2, THEN conjunct1, rule_format, OF h3]
  obtain out where "Commit (Suc 0) 1 slashKeys (tracedClient ?c) ?txn (?st, []) =
      Some (out, (snd (conn_Multi (conn ?c) [CheckVersionRequest ''/a'' 0] ?st),
                  [] @ [CallMulti [CheckVersionRequest ''/a'' 0]]))"
    ..
  then have 6: "snd (snd (the (Commit 1 1 slashKeys (tracedClient ?c) ?txn (?st, [])))) =
      [CallMulti [CheckVersionRequest ''/a'' 0]]"
    by simp
  from 1 2 3 4 5 6 show ?thesis by simp
qed

end
